theory Spec2Isabelle
  imports Complex_Main "HOL-Library.AList" "HOL-Library.Char_ord" "HOL-Library.List_Lexorder"
    "HOL-Library.Multiset" "HOL-Library.Sublist"
begin

section \<open>Strings as the indexer uses them\<close>

text \<open>
  A string is the UTF-8 encoding of the JavaScript string, which is also how SQLite
  stores it. The separators the indexer looks for (\<open>/\<close> and \<open>.\<close>) are ASCII, so
  cutting a key at them gives the same pieces whether the key is counted in bytes or in
  UTF-16 units.
\<close>

text \<open>The bytes of UTF-8: an ASCII character, a byte that continues a character, and a
  byte that starts a character of several bytes.\<close>

fun is_ascii :: "char \<Rightarrow> bool" where
  "is_ascii (Char b0 b1 b2 b3 b4 b5 b6 b7) = (\<not> b7)"

fun is_continuation :: "char \<Rightarrow> bool" where
  "is_continuation (Char b0 b1 b2 b3 b4 b5 b6 b7) = (b7 \<and> \<not> b6)"

fun is_lead :: "char \<Rightarrow> bool" where
  "is_lead (Char b0 b1 b2 b3 b4 b5 b6 b7) = (b7 \<and> b6)"

text \<open>An upper-case ASCII letter becomes lower case by setting bit 5 (\<open>A\<close> is 65, \<open>a\<close> is 97).\<close>

fun lower_char :: "char \<Rightarrow> char" where
  "lower_char (Char b0 b1 b2 b3 b4 b5 b6 b7) =
     (if Char b0 b1 b2 b3 b4 b5 b6 b7 \<in> set ''ABCDEFGHIJKLMNOPQRSTUVWXYZ''
      then Char b0 b1 b2 b3 b4 True b6 b7
      else Char b0 b1 b2 b3 b4 b5 b6 b7)"

text \<open>
  JavaScript's \<open>s.toLowerCase()\<close>. On ASCII text it lowers the letters \<open>A\<close> to \<open>Z\<close>.
  On any other text it follows the case tables of Unicode, which are not part of the
  repository: \<open>unicode\<close> stands for what the runtime returns there.
\<close>

definition toLowerCase :: "(string \<Rightarrow> string) \<Rightarrow> string \<Rightarrow> string" where
  "toLowerCase unicode s = (if list_all is_ascii s then map lower_char s else unicode s)"

text \<open>\<open>s.lastIndexOf(c)\<close>: the index of the last occurrence, \<open>-1\<close> when there is none.\<close>

definition lastIndexOf :: "string \<Rightarrow> char \<Rightarrow> int" where
  "lastIndexOf s c =
     (if c \<in> set s
      then int (length s) - 1 - int (length (takeWhile (\<lambda>x. x \<noteq> c) (rev s)))
      else - 1)"

text \<open>\<open>s.slice(i)\<close> for an index \<open>0 \<le> i\<close>.\<close>

definition slice_from :: "string \<Rightarrow> int \<Rightarrow> string" where
  "slice_from s i = drop (nat i) s"

text \<open>\<open>s.split(c)\<close> for a one-character separator: never empty, \<open>"".split("/") = [""]\<close>.\<close>

fun split :: "char \<Rightarrow> string \<Rightarrow> string list" where
  "split c [] = [[]]"
| "split c (x # xs) =
     (if x = c then [] # split c xs
      else (case split c xs of [] \<Rightarrow> [[x]] | s # ss \<Rightarrow> (x # s) # ss))"

text \<open>\<open>x || null\<close> on an optional string: the empty string is falsy.\<close>

fun or_null :: "string option \<Rightarrow> string option" where
  "or_null None = None"
| "or_null (Some s) = (if s = [] then None else Some s)"

section \<open>Key decomposition\<close>

definition extractExtension :: "(string \<Rightarrow> string) \<Rightarrow> string \<Rightarrow> string" where
  "extractExtension unicode key =
     (let lastSlash = lastIndexOf key CHR ''/'';
          lastDot = lastIndexOf key CHR ''.''
      in if lastDot = - 1 \<or> lastDot < lastSlash then []
         else toLowerCase unicode (slice_from key (lastDot + 1)))"

text \<open>\<open>key.split("/").filter(Boolean)\<close>: the non-empty segments of a key.\<close>

definition segments :: "string \<Rightarrow> string list" where
  "segments key = filter (\<lambda>s. s \<noteq> []) (split CHR ''/'' key)"

text \<open>\<open>parts.pop() || key\<close>: the last non-empty segment, the key itself when there is none.\<close>

definition basename :: "string \<Rightarrow> string" where
  "basename key = (case rev (segments key) of [] \<Rightarrow> key | s # _ \<Rightarrow> s)"

text \<open>
  The loop of \<open>folderPrefixesForKey\<close> over \<open>parts[0 .. length - 2]\<close>, with the
  accumulated prefix \<open>acc\<close>; an empty name is skipped.
\<close>

fun prefixes_loop :: "string \<Rightarrow> string list \<Rightarrow> (string \<times> string) list" where
  "prefixes_loop acc [] = []"
| "prefixes_loop acc (name # rest) =
     (if name = [] then prefixes_loop acc rest
      else (acc @ name @ ''/'', name) # prefixes_loop (acc @ name @ ''/'') rest)"

definition folderPrefixesForKey :: "string \<Rightarrow> (string \<times> string) list" where
  "folderPrefixesForKey key = prefixes_loop [] (butlast (segments key))"

section \<open>The index store\<close>

text \<open>
  A row of the table \<open>object_index\<close>, without its primary key. The table is the list
  of its (key, row) pairs in insertion order; the primary key makes the keys distinct.
  The single row of \<open>index_state\<close> is absent until it is first written.
\<close>

record row =
  name :: string
  extension :: "string option"
  size' :: int
  last_modified :: "string option"
  etag :: "string option"
  updated_at :: string
  type' :: string

record IndexState =
  last_full_scan :: "string option"
  last_delta_scan :: "string option"

text \<open>
  The world a run works in: the two tables, the system clock and the case tables of the
  JavaScript runtime. The clock is the sequence of timestamps that successive readings
  (\<open>new Date().toISOString()\<close>) give; \<open>unicode_lower\<close> is what \<open>toLowerCase\<close> returns
  on text that is not all ASCII.
\<close>

record world =
  object_index :: "(string \<times> row) list"
  index_state :: "IndexState option"
  clock :: "nat \<Rightarrow> string"
  ticks :: nat
  unicode_lower :: "string \<Rightarrow> string"

definition nowIso :: "world \<Rightarrow> string \<times> world" where
  "nowIso w = (clock w (ticks w), w\<lparr>ticks := Suc (ticks w)\<rparr>)"

definition getState :: "world \<Rightarrow> IndexState" where
  "getState w =
     (case index_state w of
        Some r \<Rightarrow> r
      | None \<Rightarrow> \<lparr>last_full_scan = None, last_delta_scan = None\<rparr>)"

text \<open>
  A \<open>Partial<IndexState>\<close>: each field is either not given (\<open>None\<close>) or given with
  its value. \<open>{...current, ...updates}\<close> takes the given fields from \<open>updates\<close>.
\<close>

record IndexState_updates =
  upd_last_full_scan :: "string option option"
  upd_last_delta_scan :: "string option option"

definition updateState :: "IndexState_updates \<Rightarrow> world \<Rightarrow> world" where
  "updateState updates w =
     (let current = getState w;
          next_full = (case upd_last_full_scan updates of
                         None \<Rightarrow> last_full_scan current | Some v \<Rightarrow> v);
          next_delta = (case upd_last_delta_scan updates of
                          None \<Rightarrow> last_delta_scan current | Some v \<Rightarrow> v);
          lastFull = or_null next_full;
          lastDelta = or_null next_delta
      in w\<lparr>index_state := Some \<lparr>last_full_scan = lastFull, last_delta_scan = lastDelta\<rparr>\<rparr>)"

text \<open>The prepared statements \<open>upsertObject\<close>, \<open>getObject\<close> and \<open>deleteObjectStmt\<close>.\<close>

definition upsertObject :: "string \<Rightarrow> row \<Rightarrow> world \<Rightarrow> world" where
  "upsertObject k r w = w\<lparr>object_index := AList.update k r (object_index w)\<rparr>"

definition getObject :: "world \<Rightarrow> string \<Rightarrow> row option" where
  "getObject w k = map_of (object_index w) k"

definition deleteObjectStmt :: "string \<Rightarrow> world \<Rightarrow> world" where
  "deleteObjectStmt k w = w\<lparr>object_index := AList.delete k (object_index w)\<rparr>"

text \<open>\<open>SELECT COUNT(*) FROM object_index WHERE type = ?\<close>.\<close>

definition count_type :: "string \<Rightarrow> world \<Rightarrow> int" where
  "count_type t w = int (length (filter (\<lambda>(k, r). type' r = t) (object_index w)))"

record IndexStatus =
  objectCount :: int
  lastFullScan :: "string option"
  lastDeltaScan :: "string option"

definition getIndexStatus :: "world \<Rightarrow> IndexStatus" where
  "getIndexStatus w =
     (let count = count_type ''file'' w;
          state = getState w
      in \<lparr>objectCount = count,
          lastFullScan = or_null (last_full_scan state),
          lastDeltaScan = or_null (last_delta_scan state)\<rparr>)"

section \<open>The remote lister\<close>

text \<open>
  An entry of \<open>response.Contents\<close>; \<open>LastModified\<close> holds what \<open>toISOString()\<close>
  gives for the date. The remote store is the list of its replies to the successive
  \<open>ListObjectsV2\<close> requests of one enumeration: a reply is a page or a rejection.
\<close>

record s3_object =
  Key :: "string option"
  Size :: "int option"
  LastModified :: "string option"
  ETag :: "string option"
  StorageClass :: "string option"

record ListObjectsV2Output =
  Contents :: "s3_object list option"
  NextContinuationToken :: "string option"

datatype error = ListingError string

type_synonym remote = "(error + ListObjectsV2Output) list"

record S3ObjectDetail =
  obj_key :: string
  obj_size :: int
  obj_lastModified :: "string option"
  obj_etag :: "string option"
  obj_storageClass :: "string option"

definition normalizePrefix :: "string \<Rightarrow> string" where
  "normalizePrefix prefix' =
     (if prefix' = [] then []
      else if last prefix' = CHR ''/'' then prefix' else prefix' @ ''/'')"

definition detail_of :: "s3_object \<Rightarrow> S3ObjectDetail" where
  "detail_of item =
     \<lparr>obj_key = (case Key item of None \<Rightarrow> [] | Some k \<Rightarrow> k),
      obj_size = (case Size item of None \<Rightarrow> 0 | Some n \<Rightarrow> n),
      obj_lastModified = LastModified item,
      obj_etag = or_null (map_option (filter (\<lambda>c. c \<noteq> CHR 0x22)) (ETag item)),
      obj_storageClass = StorageClass item\<rparr>"

text \<open>The objects of one page that reach the callback: an item with no key, or with the
  key of the prefix itself, is skipped.\<close>

definition page_objects :: "string \<Rightarrow> ListObjectsV2Output \<Rightarrow> S3ObjectDetail list" where
  "page_objects normalized response =
     map detail_of
       (filter (\<lambda>item. \<not> (or_null (Key item) = None \<or> Key item = Some normalized))
          (case Contents response of None \<Rightarrow> [] | Some items \<Rightarrow> items))"

text \<open>
  How an enumeration ends: every page was processed (\<open>Done\<close>), a request was rejected
  (\<open>Thrown\<close>), or the store still owes the reply to a request (\<open>Waiting\<close>).
\<close>

datatype walk_end = Done | Thrown error | Waiting

fun walk_pages :: "string \<Rightarrow> (S3ObjectDetail \<Rightarrow> 's \<Rightarrow> 's) \<Rightarrow> remote \<Rightarrow> 's \<Rightarrow> walk_end \<times> 's" where
  "walk_pages normalized onObject [] s = (Waiting, s)"
| "walk_pages normalized onObject (Inl e # replies) s = (Thrown e, s)"
| "walk_pages normalized onObject (Inr response # replies) s =
     (let s' = fold onObject (page_objects normalized response) s
      in if or_null (NextContinuationToken response) \<noteq> None
         then walk_pages normalized onObject replies s'
         else (Done, s'))"

definition walkAllObjects ::
  "string \<Rightarrow> (S3ObjectDetail \<Rightarrow> 's \<Rightarrow> 's) \<Rightarrow> remote \<Rightarrow> 's \<Rightarrow> walk_end \<times> 's" where
  "walkAllObjects prefix' onObject replies s =
     walk_pages (normalizePrefix prefix') onObject replies s"

section \<open>The reconciliation engine\<close>

text \<open>
  The local variables of a run, with the world it changes. \<open>rebuildIndex\<close> counts in
  \<open>indexed\<close>; \<open>refreshIndex\<close> counts in \<open>added\<close> and \<open>updated\<close>.
\<close>

record scan =
  db :: world
  seenKeys :: "string set"
  seenFolders :: "string set"
  indexed :: int
  added :: int
  updated :: int

definition new_scan :: "world \<Rightarrow> scan" where
  "new_scan w =
     \<lparr>db = w, seenKeys = {}, seenFolders = {}, indexed = 0, added = 0, updated = 0\<rparr>"

definition folder_row :: "string \<Rightarrow> string \<Rightarrow> row" where
  "folder_row folder_name now =
     \<lparr>name = folder_name, extension = None, size' = 0, last_modified = None, etag = None,
      updated_at = now, type' = ''folder''\<rparr>"

definition file_row :: "(string \<Rightarrow> string) \<Rightarrow> S3ObjectDetail \<Rightarrow> string \<Rightarrow> row" where
  "file_row unicode obj now =
     \<lparr>name = basename (obj_key obj),
      extension = or_null (Some (extractExtension unicode (obj_key obj))),
      size' = obj_size obj,
      last_modified = or_null (obj_lastModified obj),
      etag = or_null (obj_etag obj),
      updated_at = now,
      type' = ''file''\<rparr>"

subsection \<open>Full rebuild\<close>

definition rebuild_folder :: "string \<times> string \<Rightarrow> scan \<Rightarrow> scan" where
  "rebuild_folder folder s =
     (if fst folder \<in> seenFolders s then s
      else let (now, w) = nowIso (db s)
           in s\<lparr>db := upsertObject (fst folder) (folder_row (snd folder) now) w,
                seenFolders := insert (fst folder) (seenFolders s),
                seenKeys := insert (fst folder) (seenKeys s)\<rparr>)"

text \<open>The part of the callback of \<open>rebuildIndex\<close> that handles the object itself.\<close>

definition rebuild_file :: "S3ObjectDetail \<Rightarrow> scan \<Rightarrow> scan" where
  "rebuild_file obj s =
     (let (now, w) = nowIso (db s)
      in s\<lparr>db := upsertObject (obj_key obj) (file_row (unicode_lower (db s)) obj now) w,
           seenKeys := insert (obj_key obj) (seenKeys s),
           indexed := indexed s + 1\<rparr>)"

definition rebuild_object :: "S3ObjectDetail \<Rightarrow> scan \<Rightarrow> scan" where
  "rebuild_object obj s =
     (let folders = folderPrefixesForKey (obj_key obj);
          s1 = fold rebuild_folder folders s
      in rebuild_file obj s1)"

text \<open>
  What the promise of an asynchronous run comes to: resolved with the summary, rejected
  with the error of the listing, or pending for ever when the store never replies.
\<close>

datatype 'a outcome = Resolved 'a | Rejected error | Pending

record rebuild_summary =
  sum_indexed :: int
  sum_folders :: int

definition rebuildIndex :: "remote \<Rightarrow> world \<Rightarrow> rebuild_summary outcome \<times> world" where
  "rebuildIndex replies w =
     (let w0 = w\<lparr>object_index := []\<rparr>
      in case walkAllObjects [] rebuild_object replies (new_scan w0) of
           (Thrown e, s) \<Rightarrow> (Rejected e, db s)
         | (Waiting, s) \<Rightarrow> (Pending, db s)
         | (Done, s) \<Rightarrow>
             (let (now, w1) = nowIso (db s);
                  w2 = updateState \<lparr>upd_last_full_scan = Some (Some now),
                                    upd_last_delta_scan = Some (Some now)\<rparr> w1
              in (Resolved \<lparr>sum_indexed = count_type ''file'' w2,
                            sum_folders = count_type ''folder'' w2\<rparr>, w2)))"

subsection \<open>Delta refresh\<close>

definition refresh_folder :: "string \<times> string \<Rightarrow> scan \<Rightarrow> scan" where
  "refresh_folder folder s =
     (if fst folder \<in> seenFolders s then s
      else let existingFolder = getObject (db s) (fst folder);
               needsFolder =
                 (case existingFolder of
                    None \<Rightarrow> True
                  | Some e \<Rightarrow> type' e \<noteq> ''folder'' \<or> size' e \<noteq> 0 \<or> last_modified e \<noteq> None);
               s1 = (if needsFolder
                     then let (now, w) = nowIso (db s);
                              s' = s\<lparr>db := upsertObject (fst folder) (folder_row (snd folder) now) w\<rparr>
                          in if existingFolder = None then s'\<lparr>added := added s' + 1\<rparr>
                             else s'\<lparr>updated := updated s' + 1\<rparr>
                     else s)
           in s1\<lparr>seenFolders := insert (fst folder) (seenFolders s1),
                 seenKeys := insert (fst folder) (seenKeys s1)\<rparr>)"

text \<open>The part of the callback of \<open>refreshIndex\<close> that handles the object itself.\<close>

definition refresh_file :: "S3ObjectDetail \<Rightarrow> scan \<Rightarrow> scan" where
  "refresh_file obj s =
     (let existing = getObject (db s) (obj_key obj);
          lastModified = or_null (obj_lastModified obj);
          etag' = or_null (obj_etag obj);
          needsUpdate =
            (case existing of
               None \<Rightarrow> True
             | Some e \<Rightarrow> type' e \<noteq> ''file'' \<or> size' e \<noteq> obj_size obj
                          \<or> last_modified e \<noteq> lastModified \<or> etag e \<noteq> etag');
          s1 = (if existing = None then s\<lparr>added := added s + 1\<rparr>
                else if needsUpdate then s\<lparr>updated := updated s + 1\<rparr>
                else s);
          s2 = (if needsUpdate
                then let (now, w) = nowIso (db s1)
                     in s1\<lparr>db := upsertObject (obj_key obj)
                                   (file_row (unicode_lower (db s)) obj now) w\<rparr>
                else s1)
      in s2\<lparr>seenKeys := insert (obj_key obj) (seenKeys s2)\<rparr>)"

definition refresh_object :: "S3ObjectDetail \<Rightarrow> scan \<Rightarrow> scan" where
  "refresh_object obj s =
     (let folders = folderPrefixesForKey (obj_key obj);
          s1 = fold refresh_folder folders s
      in refresh_file obj s1)"

text \<open>The deletion sweep over \<open>SELECT key FROM object_index\<close>, with its counter.\<close>

definition sweep_key :: "string set \<Rightarrow> string \<Rightarrow> world \<times> int \<Rightarrow> world \<times> int" where
  "sweep_key seen k acc =
     (if k \<notin> seen then (deleteObjectStmt k (fst acc), snd acc + 1) else acc)"

definition sweep :: "string set \<Rightarrow> world \<Rightarrow> world \<times> int" where
  "sweep seen w = fold (sweep_key seen) (map fst (object_index w)) (w, 0)"

record refresh_summary =
  sum_added :: int
  sum_updated :: int
  sum_removed :: int
  sum_files :: int
  sum_folders' :: int

definition refreshIndex :: "remote \<Rightarrow> world \<Rightarrow> refresh_summary outcome \<times> world" where
  "refreshIndex replies w =
     (case walkAllObjects [] refresh_object replies (new_scan w) of
        (Thrown e, s) \<Rightarrow> (Rejected e, db s)
      | (Waiting, s) \<Rightarrow> (Pending, db s)
      | (Done, s) \<Rightarrow>
          (let (w1, removed) = sweep (seenKeys s) (db s);
               (now, w2) = nowIso w1;
               w3 = updateState \<lparr>upd_last_full_scan = None,
                                 upd_last_delta_scan = Some (Some now)\<rparr> w2
           in (Resolved \<lparr>sum_added = added s, sum_updated = updated s, sum_removed = removed,
                         sum_files = count_type ''file'' w3,
                         sum_folders' = count_type ''folder'' w3\<rparr>, w3)))"

section \<open>The query service\<close>

subsection \<open>Numbers\<close>

text \<open>
  A JavaScript number: not-a-number, an infinity, or a finite value. \<open>Math.max\<close> and
  \<open>Math.min\<close> return \<open>NaN\<close> as soon as an argument is \<open>NaN\<close>.
\<close>

datatype number = NaN | NegativeInfinity | Finite real | PositiveInfinity

fun Math_max :: "number \<Rightarrow> number \<Rightarrow> number" where
  "Math_max NaN y = NaN"
| "Math_max x NaN = NaN"
| "Math_max PositiveInfinity y = PositiveInfinity"
| "Math_max x PositiveInfinity = PositiveInfinity"
| "Math_max NegativeInfinity y = y"
| "Math_max x NegativeInfinity = x"
| "Math_max (Finite x) (Finite y) = Finite (max x y)"

fun Math_min :: "number \<Rightarrow> number \<Rightarrow> number" where
  "Math_min NaN y = NaN"
| "Math_min x NaN = NaN"
| "Math_min NegativeInfinity y = NegativeInfinity"
| "Math_min x NegativeInfinity = NegativeInfinity"
| "Math_min PositiveInfinity y = y"
| "Math_min x PositiveInfinity = x"
| "Math_min (Finite x) (Finite y) = Finite (min x y)"

text \<open>
  A number bound to \<open>LIMIT ?\<close> or \<open>OFFSET ?\<close>: SQLite takes it when it converts to a
  64-bit integer without loss, and fails the statement (datatype mismatch) otherwise;
  \<open>NaN\<close> is bound as \<open>NULL\<close> and fails too.
\<close>

fun bind_integer :: "number \<Rightarrow> int option" where
  "bind_integer (Finite x) =
     (if of_int \<lfloor>x\<rfloor> = x \<and> - (2 ^ 63) < x \<and> x < 2 ^ 63 - 1 then Some \<lfloor>x\<rfloor> else None)"
| "bind_integer x = None"

subsection \<open>Text\<close>

text \<open>
  \<open>s.trim()\<close> cuts white space and line terminators from both ends. These are their
  UTF-8 encodings: U+0009 to U+000D, U+0020, U+00A0, U+1680, U+2000 to U+200A, U+2028,
  U+2029, U+202F, U+205F, U+3000 and U+FEFF.
\<close>

definition white_space :: "string list" where
  "white_space =
     [[CHR 0x09], [CHR 0x0A], [CHR 0x0B], [CHR 0x0C], [CHR 0x0D], [CHR 0x20],
      [CHR 0xC2, CHR 0xA0], [CHR 0xE1, CHR 0x9A, CHR 0x80],
      [CHR 0xE2, CHR 0x80, CHR 0x80], [CHR 0xE2, CHR 0x80, CHR 0x81],
      [CHR 0xE2, CHR 0x80, CHR 0x82], [CHR 0xE2, CHR 0x80, CHR 0x83],
      [CHR 0xE2, CHR 0x80, CHR 0x84], [CHR 0xE2, CHR 0x80, CHR 0x85],
      [CHR 0xE2, CHR 0x80, CHR 0x86], [CHR 0xE2, CHR 0x80, CHR 0x87],
      [CHR 0xE2, CHR 0x80, CHR 0x88], [CHR 0xE2, CHR 0x80, CHR 0x89],
      [CHR 0xE2, CHR 0x80, CHR 0x8A], [CHR 0xE2, CHR 0x80, CHR 0xA8],
      [CHR 0xE2, CHR 0x80, CHR 0xA9], [CHR 0xE2, CHR 0x80, CHR 0xAF],
      [CHR 0xE2, CHR 0x81, CHR 0x9F], [CHR 0xE3, CHR 0x80, CHR 0x80],
      [CHR 0xEF, CHR 0xBB, CHR 0xBF]]"

text \<open>Cutting from the front every leading occurrence of one of the sequences \<open>ws\<close>.\<close>

function strip_leading :: "string list \<Rightarrow> string \<Rightarrow> string" where
  "strip_leading ws s =
     (case find (\<lambda>w. w \<noteq> [] \<and> prefix w s) ws of
        None \<Rightarrow> s
      | Some w \<Rightarrow> strip_leading ws (drop (length w) s))"
  by pat_completeness auto
termination
proof (relation "measure (\<lambda>(ws, s). length s)")
  show "wf (measure (\<lambda>(ws, s). length s))" by simp
next
  fix ws :: "string list" and s w :: string
  assume "find (\<lambda>w. w \<noteq> [] \<and> prefix w s) ws = Some w"
  then have "w \<noteq> []" "prefix w s" by (auto simp: find_Some_iff)
  then have "s \<noteq> []" by auto
  then show "((ws, drop (length w) s), (ws, s)) \<in> measure (\<lambda>(ws, s). length s)"
    using \<open>w \<noteq> []\<close> by simp
qed

declare strip_leading.simps [simp del]

definition trimStart :: "string \<Rightarrow> string" where
  "trimStart s = strip_leading white_space s"

definition trimEnd :: "string \<Rightarrow> string" where
  "trimEnd s = rev (strip_leading (map rev white_space) (rev s))"

definition trim :: "string \<Rightarrow> string" where
  "trim s = trimEnd (trimStart s)"

text \<open>SQLite's \<open>lower(X)\<close>: only the ASCII letters are lowered.\<close>

definition sql_lower :: "string \<Rightarrow> string" where
  "sql_lower s = map lower_char s"

text \<open>
  SQLite's \<open>text LIKE pattern\<close> with no \<open>ESCAPE\<close>: \<open>%\<close> stands for any run of
  characters and \<open>_\<close> for any one character, where a character is a leading byte with
  the continuation bytes that follow it; other characters are compared as they are, ASCII
  letters without case. \<open>LIKE\<close> reads both texts up to their first NUL.
\<close>

definition utf8_rest :: "char \<Rightarrow> string \<Rightarrow> string" where
  "utf8_rest c cs = (if is_lead c then dropWhile is_continuation cs else cs)"

function like :: "string \<Rightarrow> string \<Rightarrow> bool" where
  "like [] t = (t = [])"
| "like (p # ps) [] = (p = CHR ''%'' \<and> like ps [])"
| "like (p # ps) (c # cs) =
     (if p = CHR ''%'' then like ps (c # cs) \<or> like (p # ps) (utf8_rest c cs)
      else if p = CHR ''_'' then like ps (utf8_rest c cs)
      else lower_char p = lower_char c \<and> like ps cs)"
  by pat_completeness auto
termination
proof (relation "measure (\<lambda>(p, t). length p + length t)")
  fix p c :: char and ps cs :: string
  have "length (dropWhile is_continuation cs) \<le> length cs"
    by (rule length_dropWhile_le)
  then have "length (utf8_rest c cs) \<le> length cs"
    by (simp add: utf8_rest_def)
  then show "((p # ps, utf8_rest c cs), (p # ps, c # cs))
               \<in> measure (\<lambda>(p, t). length p + length t)"
    and "((ps, utf8_rest c cs), (p # ps, c # cs)) \<in> measure (\<lambda>(p, t). length p + length t)"
    by simp_all
qed simp_all

definition c_string :: "string \<Rightarrow> string" where
  "c_string s = takeWhile (\<lambda>c. c \<noteq> CHR 0x00) s"

definition sql_like :: "string \<Rightarrow> string \<Rightarrow> bool" where
  "sql_like pat t = like (c_string pat) (c_string t)"

text \<open>The condition \<open>lower(name) LIKE ? OR lower(key) LIKE ? OR lower(extension) LIKE ?\<close>;
  a \<open>NULL\<close> extension makes its disjunct \<open>NULL\<close>, which selects nothing.\<close>

definition where_like :: "string \<Rightarrow> string \<times> row \<Rightarrow> bool" where
  "where_like pat kr =
     (sql_like pat (sql_lower (name (snd kr))) \<or> sql_like pat (sql_lower (fst kr))
      \<or> (case extension (snd kr) of None \<Rightarrow> False | Some e \<Rightarrow> sql_like pat (sql_lower e)))"

subsection \<open>Rows\<close>

text \<open>
  \<open>ORDER BY updated_at DESC\<close>, the text compared byte by byte. SQLite does not say in
  which order rows with the same \<open>updated_at\<close> come; they are left in the order of the
  table here, and no statement below depends on it.
\<close>

definition order_by_updated_at_desc :: "(string \<times> row) list \<Rightarrow> (string \<times> row) list" where
  "order_by_updated_at_desc rows = rev (sort_key (\<lambda>kr. updated_at (snd kr)) (rev rows))"

record IndexedObjectRow =
  item_key :: string
  item_name :: string
  item_extension :: "string option"
  item_size :: int
  item_lastModified :: "string option"
  item_updatedAt :: string
  item_type :: string

definition with_Z :: "string \<Rightarrow> string" where
  "with_Z t = (if t \<noteq> [] \<and> last t = CHR ''Z'' then t else t @ ''Z'')"

definition row_to_item :: "string \<times> row \<Rightarrow> world \<Rightarrow> IndexedObjectRow \<times> world" where
  "row_to_item kr w =
     (let r = snd kr;
          lastModified = map_option with_Z (or_null (last_modified r));
          (updatedAt, w') = (if updated_at r \<noteq> [] then (with_Z (updated_at r), w) else nowIso w)
      in (\<lparr>item_key = fst kr, item_name = name r, item_extension = or_null (extension r),
           item_size = size' r, item_lastModified = lastModified, item_updatedAt = updatedAt,
           item_type = (if type' r = ''folder'' then ''folder'' else ''file'')\<rparr>, w'))"

fun rows_to_items :: "(string \<times> row) list \<Rightarrow> world \<Rightarrow> IndexedObjectRow list \<times> world" where
  "rows_to_items [] w = ([], w)"
| "rows_to_items (kr # rows) w =
     (let (item, w1) = row_to_item kr w;
          (items, w2) = rows_to_items rows w1
      in (item # items, w2))"

subsection \<open>Search\<close>

text \<open>The parameters of a search; each may be left out.\<close>

record search_params =
  search :: "string option"
  limit :: "number option"
  offset :: "number option"

record search_result =
  items :: "IndexedObjectRow list"
  total :: int

definition effective_limit :: "search_params \<Rightarrow> number" where
  "effective_limit params =
     Math_min (Math_max (case limit params of None \<Rightarrow> Finite 20 | Some n \<Rightarrow> n) (Finite 1))
       (Finite 200)"

definition effective_offset :: "search_params \<Rightarrow> number" where
  "effective_offset params =
     Math_max (case offset params of None \<Rightarrow> Finite 0 | Some n \<Rightarrow> n) (Finite 0)"

text \<open>The pattern bound to the three \<open>LIKE\<close>s, when a condition is pushed at all.\<close>

definition search_pattern :: "(string \<Rightarrow> string) \<Rightarrow> search_params \<Rightarrow> string option" where
  "search_pattern unicode params =
     (case or_null (search params) of
        None \<Rightarrow> None
      | Some q \<Rightarrow>
          (let needle = trim (toLowerCase unicode q)
           in if needle \<noteq> [] then Some (''%'' @ needle @ ''%'') else None))"

text \<open>
  What makes SQLite fail a statement of the search: a \<open>LIMIT\<close> or \<open>OFFSET\<close> that is not
  an integer, and a \<open>LIKE\<close> pattern of more than 50000 bytes, which is refused when the
  condition is first evaluated, on the first row.
\<close>

datatype sql_error = DatatypeMismatch | LikePatternTooComplex

definition selected :: "search_params \<Rightarrow> world \<Rightarrow> sql_error + (string \<times> row) list" where
  "selected params w =
     (case search_pattern (unicode_lower w) params of
        None \<Rightarrow> Inr (object_index w)
      | Some pat \<Rightarrow>
          if 50000 < int (length pat) \<and> object_index w \<noteq> [] then Inl LikePatternTooComplex
          else Inr (filter (where_like pat) (object_index w)))"

definition searchIndexedObjects ::
  "search_params \<Rightarrow> world \<Rightarrow> (sql_error + search_result) \<times> world" where
  "searchIndexedObjects params w =
     (let limit' = effective_limit params;
          offset' = effective_offset params
      in case (bind_integer limit', bind_integer offset') of
           (Some l, Some off) \<Rightarrow>
             (case selected params w of
                Inl e \<Rightarrow> (Inl e, w)
              | Inr sel \<Rightarrow>
                  (let rows = take (nat l) (drop (nat off) (order_by_updated_at_desc sel));
                       count = int (length sel);
                       (items', w') = rows_to_items rows w
                   in (Inr \<lparr>items = items', total = count\<rparr>, w')))
         | _ \<Rightarrow> (Inl DatatypeMismatch, w))"

section \<open>Reading a run off the replies\<close>

text \<open>
  The objects that reach the callback, in order, and the way the enumeration ends,
  read off the replies of the store.
\<close>

fun listed :: "string \<Rightarrow> remote \<Rightarrow> S3ObjectDetail list" where
  "listed normalized [] = []"
| "listed normalized (Inl e # replies) = []"
| "listed normalized (Inr response # replies) =
     page_objects normalized response
     @ (if or_null (NextContinuationToken response) \<noteq> None then listed normalized replies else [])"

fun ending :: "remote \<Rightarrow> walk_end" where
  "ending [] = Waiting"
| "ending (Inl e # replies) = Thrown e"
| "ending (Inr response # replies) =
     (if or_null (NextContinuationToken response) \<noteq> None then ending replies else Done)"

text \<open>The part of the world that no step of an enumeration writes.\<close>

definition same_state :: "world \<Rightarrow> world \<Rightarrow> bool" where
  "same_state w w' \<longleftrightarrow> index_state w' = index_state w \<and> clock w' = clock w"

section \<open>Keys stored and keys observed\<close>

definition keys :: "world \<Rightarrow> string set" where
  "keys w = fst ` set (object_index w)"

text \<open>The keys of the ancestor folders that the engine derives for an object key.\<close>

definition folder_keys :: "string \<Rightarrow> string list" where
  "folder_keys k = map fst (folderPrefixesForKey k)"

text \<open>The keys a run over the objects \<open>objs\<close> observes: each listed key and the keys
  of its ancestor folders.\<close>

definition observed_keys :: "S3ObjectDetail list \<Rightarrow> string set" where
  "observed_keys objs = set (concat (map (\<lambda>obj. obj_key obj # folder_keys (obj_key obj)) objs))"

text \<open>Every key marked as seen is stored, and every seen folder is a seen key.\<close>

definition scan_ok :: "scan \<Rightarrow> bool" where
  "scan_ok s \<longleftrightarrow> seenFolders s \<subseteq> seenKeys s \<and> seenKeys s \<subseteq> keys (db s)"

section \<open>Matching as the specification words it\<close>

text \<open>
  A needle that \<open>LIKE\<close> reads as literal text: ASCII characters, none of them a
  wildcard or a NUL, in a pattern that SQLite accepts.
\<close>

definition literal_needle :: "string \<Rightarrow> bool" where
  "literal_needle needle \<longleftrightarrow>
     list_all is_ascii needle \<and> CHR ''%'' \<notin> set needle \<and> CHR ''_'' \<notin> set needle
     \<and> CHR 0x00 \<notin> set needle \<and> int (length needle) + 2 \<le> 50000"

text \<open>
  An entry contains the needle when the needle is a contiguous part of its name, key or
  extension, ASCII letters compared without case and each text read up to its first NUL;
  an absent extension contains nothing.
\<close>

definition contains_needle :: "string \<Rightarrow> string \<times> row \<Rightarrow> bool" where
  "contains_needle needle kr =
     (sublist (sql_lower needle) (c_string (sql_lower (name (snd kr))))
      \<or> sublist (sql_lower needle) (c_string (sql_lower (fst kr)))
      \<or> (case extension (snd kr) of
            None \<Rightarrow> False
          | Some e \<Rightarrow> sublist (sql_lower needle) (c_string (sql_lower e))))"

section \<open>Rows that need no write\<close>

text \<open>The comparison of \<open>refreshIndex\<close> finds nothing to update for the object.\<close>

definition row_matches :: "row \<Rightarrow> S3ObjectDetail \<Rightarrow> bool" where
  "row_matches e obj \<longleftrightarrow>
     type' e = ''file'' \<and> size' e = obj_size obj
     \<and> last_modified e = or_null (obj_lastModified obj) \<and> etag e = or_null (obj_etag obj)"

section \<open>Folders of stored files\<close>

definition is_folder :: "world \<Rightarrow> string \<Rightarrow> bool" where
  "is_folder w k = (case getObject w k of None \<Rightarrow> False | Some r \<Rightarrow> type' r = ''folder'')"

text \<open>A folder row as \<open>refreshIndex\<close> wants to find it: nothing needs to be written.\<close>

definition clean_folder :: "world \<Rightarrow> string \<Rightarrow> bool" where
  "clean_folder w k =
     (case getObject w k of
        None \<Rightarrow> False
      | Some r \<Rightarrow> type' r = ''folder'' \<and> size' r = 0 \<and> last_modified r = None)"

definition is_file :: "world \<Rightarrow> string \<Rightarrow> bool" where
  "is_file w k = (case getObject w k of None \<Rightarrow> False | Some r \<Rightarrow> type' r = ''file'')"

text \<open>
  The ancestor folders of a key as the specification words them: its proper prefixes
  that end in the path separator.
\<close>

definition slash_prefixes :: "string \<Rightarrow> string list" where
  "slash_prefixes k = filter (\<lambda>p. p \<noteq> [] \<and> last p = CHR ''/'' \<and> p \<noteq> k) (prefixes k)"

text \<open>
  No listed key is the key of an ancestor folder of an object listed before it, or of
  itself: a listed folder marker comes before the objects under it. \<open>seen\<close> holds the
  folder keys of the objects already passed.
\<close>

fun markers_first :: "string set \<Rightarrow> S3ObjectDetail list \<Rightarrow> bool" where
  "markers_first seen [] = True"
| "markers_first seen (obj # objs) =
     (obj_key obj \<notin> seen \<union> set (folder_keys (obj_key obj))
      \<and> markers_first (seen \<union> set (folder_keys (obj_key obj))) objs)"

text \<open>No listed key is also the key of an ancestor folder of a listed object.\<close>

definition no_markers :: "S3ObjectDetail list \<Rightarrow> bool" where
  "no_markers objs \<longleftrightarrow>
     (\<forall>obj \<in> set objs. \<forall>obj' \<in> set objs. obj_key obj \<notin> set (folder_keys (obj_key obj')))"

text \<open>
  What a scan keeps true of its state: seen folders are stored as folder rows that need
  no write, and every seen
  key that is stored as a file has the keys of all its ancestor folders among them.
\<close>

definition folders_ok :: "scan \<Rightarrow> bool" where
  "folders_ok s \<longleftrightarrow>
     scan_ok s
     \<and> (\<forall>k \<in> seenFolders s. clean_folder (db s) k)
     \<and> (\<forall>k \<in> seenKeys s. is_file (db s) k \<longrightarrow> set (folder_keys k) \<subseteq> seenFolders s)"

section \<open>Example data\<close>

text \<open>A clock that gives a different timestamp at each of ten successive readings.\<close>

definition clock0 :: "nat \<Rightarrow> string" where
  "clock0 n = ''2024-05-01T10:00:00.00'' @ [''0123456789'' ! (n mod 10)] @ ''Z''"

text \<open>A stand-in for the case tables of the runtime; the examples are ASCII text, on
  which they are not consulted.\<close>

definition unicode0 :: "string \<Rightarrow> string" where
  "unicode0 s = s"

definition world0 :: "(string \<times> row) list \<Rightarrow> world" where
  "world0 table =
     \<lparr>object_index = table, index_state = None, clock = clock0, ticks = 0,
      unicode_lower = unicode0\<rparr>"

definition item0 :: "string \<Rightarrow> int \<Rightarrow> s3_object" where
  "item0 k n =
     \<lparr>Key = Some k, Size = Some n, LastModified = Some ''2024-04-30T08:15:00.000Z'',
      ETag = Some [CHR 0x22, CHR ''9'', CHR ''b'', CHR ''2'', CHR ''c'', CHR 0x22],
      StorageClass = Some ''STANDARD''\<rparr>"

definition page0 :: "s3_object list \<Rightarrow> string option \<Rightarrow> error + ListObjectsV2Output" where
  "page0 xs t = Inr \<lparr>Contents = Some xs, NextContinuationToken = t\<rparr>"

text \<open>The row that a scan stores for \<open>item0 k n\<close>, written at time \<open>t\<close>.\<close>

definition stored0 :: "string \<Rightarrow> int \<Rightarrow> string \<Rightarrow> string \<times> row" where
  "stored0 k n t = (k, file_row unicode0 (detail_of (item0 k n)) t)"

section \<open>Properties of the key decomposition\<close>

lemma takeWhile_rev_last:
  assumes "c \<notin> set t"
  shows "takeWhile (\<lambda>x. x \<noteq> c) (rev t @ c # ys) = rev t"
  using assms by (induction t rule: rev_induct) auto

lemma length_takeWhile_less_if:
  "\<exists>x\<in>set xs. \<not> P x \<Longrightarrow> length (takeWhile P xs) < length xs"
  by (induction xs) auto

lemma lastIndexOf_last:
  assumes "c \<notin> set t"
  shows "lastIndexOf (p @ c # t) c = int (length p)"
  using takeWhile_rev_last [OF assms, of "rev p"] by (simp add: lastIndexOf_def)

lemma lastIndexOf_absent: "c \<notin> set s \<Longrightarrow> lastIndexOf s c = - 1"
  by (simp add: lastIndexOf_def)

lemma lastIndexOf_less_length: "lastIndexOf s c < int (length s)"
proof (cases "c \<in> set s")
  case True
  then show ?thesis
    using length_takeWhile_less_if [of "rev s" "\<lambda>x. x \<noteq> c"] by (simp add: lastIndexOf_def)
next
  case False
  then show ?thesis by (simp add: lastIndexOf_def)
qed

lemma lastIndexOf_append_absent:
  assumes "c \<notin> set t"
  shows "lastIndexOf (p @ t) c = lastIndexOf p c"
proof (cases "c \<in> set p")
  case True
  then obtain p1 p2 where p: "p = p1 @ c # p2" "c \<notin> set p2"
    by (meson split_list_last)
  have "lastIndexOf (p1 @ c # (p2 @ t)) c = int (length p1)"
    using assms p(2) by (intro lastIndexOf_last) simp
  moreover have "lastIndexOf (p1 @ c # p2) c = int (length p1)"
    using p(2) by (rule lastIndexOf_last)
  ultimately show ?thesis using p(1) by simp
next
  case False
  then show ?thesis using assms by (simp add: lastIndexOf_def)
qed

lemma extractExtension_suffix:
  assumes "key = p @ CHR ''.'' # s" and "CHR ''.'' \<notin> set s" and "CHR ''/'' \<notin> set s"
  shows "extractExtension unicode key = toLowerCase unicode s"
proof -
  have dot: "lastIndexOf key CHR ''.'' = int (length p)"
    using assms(1,2) by (simp add: lastIndexOf_last)
  have "lastIndexOf key CHR ''/'' = lastIndexOf p CHR ''/''"
    using assms(1,3) lastIndexOf_append_absent [of "CHR ''/''" "CHR ''.'' # s" p] by simp
  then have slash: "lastIndexOf key CHR ''/'' < int (length p)"
    using lastIndexOf_less_length [of p "CHR ''/''"] by simp
  show ?thesis
    using dot slash assms(1) by (simp add: extractExtension_def slice_from_def nat_add_distrib)
qed

lemma extractExtension_none:
  assumes "CHR ''.'' \<notin> set (takeWhile (\<lambda>c. c \<noteq> CHR ''/'') (rev key))"
  shows "extractExtension unicode key = []"
proof (cases "CHR ''.'' \<in> set key")
  case False
  then show ?thesis by (simp add: extractExtension_def lastIndexOf_absent)
next
  case True
  have "CHR ''/'' \<in> set key"
  proof (rule ccontr)
    assume "CHR ''/'' \<notin> set key"
    then have "takeWhile (\<lambda>c. c \<noteq> CHR ''/'') (rev key) = rev key" by auto
    with assms True show False by simp
  qed
  then obtain p t where key: "key = p @ CHR ''/'' # t" "CHR ''/'' \<notin> set t"
    by (meson split_list_last)
  have "takeWhile (\<lambda>c. c \<noteq> CHR ''/'') (rev key) = rev t"
    using takeWhile_rev_last [OF key(2), of "rev p"] key(1) by simp
  with assms have nodot: "CHR ''.'' \<notin> set (CHR ''/'' # t)" by simp
  have slash: "lastIndexOf key CHR ''/'' = int (length p)"
    using key by (simp add: lastIndexOf_last)
  have "lastIndexOf key CHR ''.'' = lastIndexOf p CHR ''.''"
    using lastIndexOf_append_absent [OF nodot, of p] key(1) by simp
  then have "lastIndexOf key CHR ''.'' < lastIndexOf key CHR ''/''"
    using lastIndexOf_less_length [of p "CHR ''.''"] slash by simp
  then show ?thesis by (simp add: extractExtension_def Let_def)
qed

lemma toLowerCase_ascii: "list_all is_ascii s \<Longrightarrow> toLowerCase unicode s = map lower_char s"
  by (simp add: toLowerCase_def)

text \<open>
  Claim C5. \<open>extractExtension\<close> returns the lower-cased text after the last dot of the
  key when that dot comes after the last path separator, and the empty string (stored as
  an absent extension by \<open>ext || null\<close>) when the last segment has no dot. The text is
  lower-cased by JavaScript's \<open>toLowerCase\<close>, whatever the tables \<open>unicode\<close> of the
  runtime give outside ASCII. So \<open>a/b/report.v2.CSV\<close> has extension \<open>csv\<close>, and
  \<open>a/b/noext\<close> and \<open>a.b/noext\<close> have none.
\<close>

theorem extractExtension_spec:
  "(key = p @ CHR ''.'' # s \<and> CHR ''.'' \<notin> set s \<and> CHR ''/'' \<notin> set s
      \<longrightarrow> extractExtension unicode key = toLowerCase unicode s)
   \<and> (CHR ''.'' \<notin> set (takeWhile (\<lambda>c. c \<noteq> CHR ''/'') (rev key))
      \<longrightarrow> extractExtension unicode key = []
          \<and> or_null (Some (extractExtension unicode key)) = None)
   \<and> or_null (Some (extractExtension unicode ''a/b/report.v2.CSV'')) = Some ''csv''
   \<and> or_null (Some (extractExtension unicode ''a/b/noext'')) = None
   \<and> or_null (Some (extractExtension unicode ''a.b/noext'')) = None"
proof -
  have ex1: "extractExtension unicode ''a/b/report.v2.CSV'' = toLowerCase unicode ''CSV''"
    by (rule extractExtension_suffix [where p = "''a/b/report.v2''"]) simp_all
  have ex2: "extractExtension unicode ''a/b/noext'' = []"
    by (rule extractExtension_none) simp
  have ex3: "extractExtension unicode ''a.b/noext'' = []"
    by (rule extractExtension_none) simp
  show ?thesis
    using ex1 ex2 ex3 extractExtension_suffix [of key p s unicode]
      extractExtension_none [of key unicode]
    by (simp add: toLowerCase_ascii)
qed

theorem extractExtension_spec_witness:
  "extractExtension unicode0 ''photo.JPG'' = ''jpg''
   \<and> extractExtension unicode0 ''v1.2/notes'' = []"
  using extractExtension_spec [of "''photo.JPG''" "''photo''" "''JPG''" unicode0]
    extractExtension_spec [of "''v1.2/notes''" _ _ unicode0]
  by (simp add: toLowerCase_ascii)

section \<open>The enumeration as a fold\<close>

lemma walk_pages_fold:
  "walk_pages normalized onObject replies s =
     (ending replies, fold onObject (listed normalized replies) s)"
  by (induction normalized onObject replies s rule: walk_pages.induct) (simp_all add: Let_def)

lemma walkAllObjects_fold:
  "walkAllObjects [] onObject replies s = (ending replies, fold onObject (listed [] replies) s)"
  by (simp add: walkAllObjects_def normalizePrefix_def walk_pages_fold)

lemma fold_invariant:
  assumes "P s" and "\<And>x s. P s \<Longrightarrow> P (f x s)"
  shows "P (fold f xs s)"
  using assms(1) by (induction xs arbitrary: s) (simp_all add: assms(2))

section \<open>What a run leaves alone\<close>

lemma nowIso_simps [simp]:
  "fst (nowIso w) = clock w (ticks w)"
  "object_index (snd (nowIso w)) = object_index w"
  "index_state (snd (nowIso w)) = index_state w"
  "clock (snd (nowIso w)) = clock w"
  "ticks (snd (nowIso w)) = Suc (ticks w)"
  by (simp_all add: nowIso_def)

lemma upsertObject_simps [simp]:
  "object_index (upsertObject k r w) = AList.update k r (object_index w)"
  "index_state (upsertObject k r w) = index_state w"
  "clock (upsertObject k r w) = clock w"
  "ticks (upsertObject k r w) = ticks w"
  by (simp_all add: upsertObject_def)

lemma deleteObjectStmt_simps [simp]:
  "object_index (deleteObjectStmt k w) = AList.delete k (object_index w)"
  "index_state (deleteObjectStmt k w) = index_state w"
  "clock (deleteObjectStmt k w) = clock w"
  "ticks (deleteObjectStmt k w) = ticks w"
  by (simp_all add: deleteObjectStmt_def)

lemma updateState_simps [simp]:
  "object_index (updateState u w) = object_index w"
  "clock (updateState u w) = clock w"
  "ticks (updateState u w) = ticks w"
  by (simp_all add: updateState_def Let_def)

lemma same_state_refl [simp]: "same_state w w"
  by (simp add: same_state_def)

lemma rebuild_folder_same_state:
  "same_state w (db s) \<Longrightarrow> same_state w (db (rebuild_folder f s))"
  by (simp add: rebuild_folder_def same_state_def split_beta Let_def)

lemma rebuild_file_same_state:
  "same_state w (db s) \<Longrightarrow> same_state w (db (rebuild_file obj s))"
  by (simp add: rebuild_file_def same_state_def split_beta Let_def)

lemma rebuild_object_same_state:
  assumes "same_state w (db s)"
  shows "same_state w (db (rebuild_object obj s))"
proof -
  have "same_state w (db (fold rebuild_folder fs s))" for fs
    using assms by (rule fold_invariant) (rule rebuild_folder_same_state)
  then show ?thesis
    by (simp add: rebuild_object_def Let_def rebuild_file_same_state)
qed

lemma refresh_folder_same_state:
  "same_state w (db s) \<Longrightarrow> same_state w (db (refresh_folder f s))"
  by (simp add: refresh_folder_def same_state_def split_beta Let_def)

lemma refresh_file_same_state:
  "same_state w (db s) \<Longrightarrow> same_state w (db (refresh_file obj s))"
  by (simp add: refresh_file_def same_state_def split_beta Let_def)

lemma refresh_object_same_state:
  assumes "same_state w (db s)"
  shows "same_state w (db (refresh_object obj s))"
proof -
  have "same_state w (db (fold refresh_folder fs s))" for fs
    using assms by (rule fold_invariant) (rule refresh_folder_same_state)
  then show ?thesis
    by (simp add: refresh_object_def Let_def refresh_file_same_state)
qed

lemma sweep_key_same_state:
  "same_state w (fst acc) \<Longrightarrow> same_state w (fst (sweep_key seen k acc))"
  by (simp add: sweep_key_def same_state_def)

lemma sweep_key_ticks: "ticks (fst (sweep_key seen k acc)) = ticks (fst acc)"
  by (simp add: sweep_key_def)

lemma sweep_same_state: "same_state w w1 \<Longrightarrow> same_state w (fst (sweep seen w1))"
  unfolding sweep_def
  by (rule fold_invariant [where P = "\<lambda>acc. same_state w (fst acc)"])
    (simp_all add: sweep_key_same_state)

lemma sweep_ticks: "ticks (fst (sweep seen w)) = ticks w"
  unfolding sweep_def
  by (rule fold_invariant [where P = "\<lambda>acc. ticks (fst acc) = ticks w"])
    (simp_all add: sweep_key_ticks)

lemma rebuild_scan_same_state:
  "same_state (w\<lparr>object_index := []\<rparr>)
     (db (fold rebuild_object objs (new_scan (w\<lparr>object_index := []\<rparr>))))"
  by (rule fold_invariant) (simp_all add: new_scan_def rebuild_object_same_state)

lemma refresh_scan_same_state:
  "same_state w (db (fold refresh_object objs (new_scan w)))"
  by (rule fold_invariant) (simp_all add: new_scan_def refresh_object_same_state)

section \<open>Scan state\<close>

lemma rebuildIndex_Resolved:
  assumes "fst (rebuildIndex replies w) = Resolved r"
  shows "ending replies = Done"
  using assms
  by (cases "ending replies")
    (simp_all add: rebuildIndex_def walkAllObjects_fold Let_def split_beta)

lemma refreshIndex_Resolved:
  assumes "fst (refreshIndex replies w) = Resolved r"
  shows "ending replies = Done"
  using assms
  by (cases "ending replies")
    (simp_all add: refreshIndex_def walkAllObjects_fold Let_def split_beta)

lemma rebuildIndex_state:
  fixes replies :: remote and w :: world
  assumes "ending replies = Done"
  defines "w' \<equiv> snd (rebuildIndex replies w)"
  shows "clock w' = clock w"
    and "0 < ticks w'"
    and "index_state w' =
           Some \<lparr>last_full_scan = or_null (Some (clock w (ticks w' - 1))),
                 last_delta_scan = or_null (Some (clock w (ticks w' - 1)))\<rparr>"
proof -
  let ?s = "fold rebuild_object (listed [] replies) (new_scan (w\<lparr>object_index := []\<rparr>))"
  have c: "clock (db ?s) = clock w"
    using rebuild_scan_same_state [of w "listed [] replies"] by (simp add: same_state_def)
  have w': "w' = updateState \<lparr>upd_last_full_scan = Some (Some (clock w (ticks (db ?s)))),
                               upd_last_delta_scan = Some (Some (clock w (ticks (db ?s))))\<rparr>
                   (snd (nowIso (db ?s)))"
    using assms(1) c
    by (simp add: w'_def rebuildIndex_def walkAllObjects_fold Let_def split_beta)
  show "clock w' = clock w" by (simp add: w' c)
  show "0 < ticks w'" by (simp add: w')
  show "index_state w' =
           Some \<lparr>last_full_scan = or_null (Some (clock w (ticks w' - 1))),
                 last_delta_scan = or_null (Some (clock w (ticks w' - 1)))\<rparr>"
    by (simp add: w') (simp add: updateState_def Let_def)
qed

lemma refreshIndex_state:
  fixes replies :: remote and w :: world
  assumes "ending replies = Done"
  defines "w' \<equiv> snd (refreshIndex replies w)"
  shows "clock w' = clock w"
    and "0 < ticks w'"
    and "getState w' =
           \<lparr>last_full_scan = or_null (last_full_scan (getState w)),
            last_delta_scan = or_null (Some (clock w (ticks w' - 1)))\<rparr>"
proof -
  let ?s = "fold refresh_object (listed [] replies) (new_scan w)"
  let ?w1 = "fst (sweep (seenKeys ?s) (db ?s))"
  have same: "same_state w ?w1"
    by (rule sweep_same_state) (rule refresh_scan_same_state)
  then have c: "clock ?w1 = clock w" and st: "getState ?w1 = getState w"
    by (simp_all add: same_state_def getState_def)
  have w': "w' = updateState \<lparr>upd_last_full_scan = None,
                               upd_last_delta_scan = Some (Some (clock w (ticks ?w1)))\<rparr>
                   (snd (nowIso ?w1))"
    using assms(1) c
    by (simp add: w'_def refreshIndex_def walkAllObjects_fold Let_def split_beta)
  have st': "getState (snd (nowIso ?w1)) = getState w"
    using st by (simp add: getState_def)
  show "clock w' = clock w" by (simp add: w' c)
  show "0 < ticks w'" by (simp add: w')
  show "getState w' =
           \<lparr>last_full_scan = or_null (last_full_scan (getState w)),
            last_delta_scan = or_null (Some (clock w (ticks w' - 1)))\<rparr>"
    using st' by (simp add: w') (simp add: updateState_def Let_def getState_def)
qed

lemma or_null_nonempty [simp]: "or_null x \<noteq> Some []"
  by (cases x) simp_all

lemma updateState_never_empty:
  "last_full_scan (getState (updateState u w)) \<noteq> Some []"
  "last_delta_scan (getState (updateState u w)) \<noteq> Some []"
  by (simp_all add: updateState_def getState_def Let_def)

text \<open>
  Claim C9. A completed \<open>rebuildIndex\<close> sets both \<open>last_full_scan\<close> and
  \<open>last_delta_scan\<close> to the time read when the enumeration has ended (the last reading of
  the clock in the run); a completed \<open>refreshIndex\<close> sets \<open>last_delta_scan\<close> to that
  time and leaves \<open>last_full_scan\<close> as it was. The clock gives non-empty timestamps, and
  the stored \<open>last_full_scan\<close> is not the empty string, which \<open>updateState\<close> never
  stores (\<open>updateState_never_empty\<close>).
\<close>

theorem scan_state_after_runs:
  "(fst (rebuildIndex replies w) = Resolved r \<and> (\<forall>n. clock w n \<noteq> []) \<longrightarrow>
      (let w' = snd (rebuildIndex replies w)
       in last_full_scan (getState w') = Some (clock w' (ticks w' - 1))
          \<and> last_delta_scan (getState w') = Some (clock w' (ticks w' - 1))))
   \<and> (fst (refreshIndex replies w) = Resolved r' \<and> (\<forall>n. clock w n \<noteq> [])
        \<and> last_full_scan (getState w) \<noteq> Some [] \<longrightarrow>
      (let w' = snd (refreshIndex replies w)
       in last_delta_scan (getState w') = Some (clock w' (ticks w' - 1))
          \<and> last_full_scan (getState w') = last_full_scan (getState w)))"
proof (intro conjI impI)
  assume a: "fst (rebuildIndex replies w) = Resolved r \<and> (\<forall>n. clock w n \<noteq> [])"
  then have d: "ending replies = Done" by (auto dest: rebuildIndex_Resolved)
  show "let w' = snd (rebuildIndex replies w)
       in last_full_scan (getState w') = Some (clock w' (ticks w' - 1))
          \<and> last_delta_scan (getState w') = Some (clock w' (ticks w' - 1))"
    using rebuildIndex_state [OF d, of w] a by (simp add: Let_def getState_def)
next
  assume a: "fst (refreshIndex replies w) = Resolved r' \<and> (\<forall>n. clock w n \<noteq> [])
        \<and> last_full_scan (getState w) \<noteq> Some []"
  then have d: "ending replies = Done" by (auto dest: refreshIndex_Resolved)
  have "or_null (last_full_scan (getState w)) = last_full_scan (getState w)"
    using a by (cases "last_full_scan (getState w)") simp_all
  then show "let w' = snd (refreshIndex replies w)
       in last_delta_scan (getState w') = Some (clock w' (ticks w' - 1))
          \<and> last_full_scan (getState w') = last_full_scan (getState w)"
    using refreshIndex_state [OF d, of w] a by (simp add: Let_def)
qed

lemma clock0_nonempty: "clock0 n \<noteq> []"
  by (simp add: clock0_def)

lemma rebuild_example:
  "fst (rebuildIndex [page0 [item0 ''a.txt'' 3] None] (world0 []))
     = Resolved \<lparr>sum_indexed = 1, sum_folders = 0\<rparr>"
  "getState (snd (rebuildIndex [page0 [item0 ''a.txt'' 3] None] (world0 [])))
     = \<lparr>last_full_scan = Some ''2024-05-01T10:00:00.001Z'',
        last_delta_scan = Some ''2024-05-01T10:00:00.001Z''\<rparr>"
  by code_simp+

lemma refresh_after_rebuild_example:
  "fst (refreshIndex [page0 [item0 ''a.txt'' 3, item0 ''b.txt'' 4] None]
         (snd (rebuildIndex [page0 [item0 ''a.txt'' 3] None] (world0 []))))
     = Resolved \<lparr>sum_added = 1, sum_updated = 0, sum_removed = 0, sum_files = 2,
                 sum_folders' = 0\<rparr>"
  "getState (snd (refreshIndex [page0 [item0 ''a.txt'' 3, item0 ''b.txt'' 4] None]
         (snd (rebuildIndex [page0 [item0 ''a.txt'' 3] None] (world0 [])))))
     = \<lparr>last_full_scan = Some ''2024-05-01T10:00:00.001Z'',
        last_delta_scan = Some ''2024-05-01T10:00:00.003Z''\<rparr>"
  by code_simp+

theorem scan_state_after_runs_witness:
  "last_full_scan (getState (snd (rebuildIndex [page0 [item0 ''a.txt'' 3] None] (world0 []))))
     = Some ''2024-05-01T10:00:00.001Z''
   \<and> last_full_scan (getState (snd (refreshIndex [page0 [item0 ''a.txt'' 3, item0 ''b.txt'' 4] None]
         (snd (rebuildIndex [page0 [item0 ''a.txt'' 3] None] (world0 []))))))
     = Some ''2024-05-01T10:00:00.001Z''
   \<and> last_delta_scan (getState (snd (refreshIndex [page0 [item0 ''a.txt'' 3, item0 ''b.txt'' 4] None]
         (snd (rebuildIndex [page0 [item0 ''a.txt'' 3] None] (world0 []))))))
     = Some ''2024-05-01T10:00:00.003Z''"
proof -
  let ?w1 = "snd (rebuildIndex [page0 [item0 ''a.txt'' 3] None] (world0 []))"
  have c0: "\<forall>n. clock (world0 []) n \<noteq> []"
    by (simp add: world0_def clock0_nonempty)
  have c1: "\<forall>n. clock ?w1 n \<noteq> []"
    using rebuildIndex_state(1) [of "[page0 [item0 ''a.txt'' 3] None]" "world0 []"] c0
    by (simp add: page0_def)
  have f1: "last_full_scan (getState ?w1) \<noteq> Some []"
    by (simp add: rebuild_example)
  show ?thesis
    using scan_state_after_runs [of "[page0 [item0 ''a.txt'' 3] None]" "world0 []"
        "\<lparr>sum_indexed = 1, sum_folders = 0\<rparr>"]
      scan_state_after_runs [of "[page0 [item0 ''a.txt'' 3, item0 ''b.txt'' 4] None]" ?w1 _
        "\<lparr>sum_added = 1, sum_updated = 0, sum_removed = 0, sum_files = 2, sum_folders' = 0\<rparr>"]
      c0 c1 f1
    by (simp add: rebuild_example refresh_after_rebuild_example Let_def)
qed

section \<open>Index status\<close>

lemma length_filter_disjoint:
  assumes "\<And>x. P x \<Longrightarrow> \<not> Q x"
  shows "length (filter P xs) + length (filter Q xs) \<le> length xs"
  by (induction xs) (auto dest: assms)

text \<open>
  Claim C10. \<open>objectCount\<close> is the number of rows of type \<open>file\<close>: folder rows are
  not counted, so it can be smaller than the number of rows. After a rebuild from the
  single object \<open>a/b.txt\<close> the table has two rows and \<open>objectCount\<close> is 1.
\<close>

theorem objectCount_counts_files:
  "objectCount (getIndexStatus w)
     = int (length (filter (\<lambda>kr. type' (snd kr) = ''file'') (object_index w)))
   \<and> objectCount (getIndexStatus w) + count_type ''folder'' w \<le> int (length (object_index w))
   \<and> (let w' = snd (rebuildIndex [page0 [item0 ''a/b.txt'' 3] None] (world0 []))
      in objectCount (getIndexStatus w') = 1 \<and> length (object_index w') = 2
         \<and> map (\<lambda>kr. (fst kr, type' (snd kr))) (object_index w')
             = [(''a/'', ''folder''), (''a/b.txt'', ''file'')])"
proof -
  have 1: "objectCount (getIndexStatus w)
     = int (length (filter (\<lambda>kr. type' (snd kr) = ''file'') (object_index w)))"
    by (simp add: getIndexStatus_def count_type_def Let_def split_def)
  have "length (filter (\<lambda>kr. type' (snd kr) = ''file'') (object_index w))
        + length (filter (\<lambda>kr. type' (snd kr) = ''folder'') (object_index w))
        \<le> length (object_index w)"
    by (rule length_filter_disjoint) simp
  then have 2: "objectCount (getIndexStatus w) + count_type ''folder'' w
        \<le> int (length (object_index w))"
    by (simp add: getIndexStatus_def count_type_def Let_def split_def)
  have 3: "let w' = snd (rebuildIndex [page0 [item0 ''a/b.txt'' 3] None] (world0 []))
      in objectCount (getIndexStatus w') = 1 \<and> length (object_index w') = 2
         \<and> map (\<lambda>kr. (fst kr, type' (snd kr))) (object_index w')
             = [(''a/'', ''folder''), (''a/b.txt'', ''file'')]"
    by code_simp
  show ?thesis using 1 2 3 by blast
qed

section \<open>The refresh scan: keys, seen keys and untouched rows\<close>

lemma fold_invariant_set:
  assumes "P s" and "\<And>x s. x \<in> set xs \<Longrightarrow> P s \<Longrightarrow> P (f x s)"
  shows "P (fold f xs s)"
  using assms by (induction xs arbitrary: s) simp_all

lemma keys_upsertObject [simp]: "keys (upsertObject k r w) = insert k (keys w)"
  by (simp add: keys_def dom_update)

lemma keys_nowIso [simp]: "keys (snd (nowIso w)) = keys w"
  by (simp add: keys_def)

lemma getObject_None_iff: "getObject w k = None \<longleftrightarrow> k \<notin> keys w"
  by (simp add: getObject_def keys_def map_of_eq_None_iff)

lemma getObject_upsertObject [simp]:
  "getObject (upsertObject k r w) k' = (if k' = k then Some r else getObject w k')"
  by (simp add: getObject_def update_conv')

lemma getObject_nowIso [simp]: "getObject (snd (nowIso w)) k = getObject w k"
  by (simp add: getObject_def)

lemma refresh_folder_seen:
  assumes "scan_ok s"
  shows "seenKeys (refresh_folder f s) = insert (fst f) (seenKeys s)"
    and "seenFolders (refresh_folder f s) = insert (fst f) (seenFolders s)"
    and "keys (db (refresh_folder f s)) = insert (fst f) (keys (db s))"
    and "scan_ok (refresh_folder f s)"
proof -
  show "seenKeys (refresh_folder f s) = insert (fst f) (seenKeys s)"
    using assms by (auto simp: refresh_folder_def scan_ok_def Let_def split_beta)
  show "seenFolders (refresh_folder f s) = insert (fst f) (seenFolders s)"
    using assms by (auto simp: refresh_folder_def scan_ok_def Let_def split_beta)
  show k: "keys (db (refresh_folder f s)) = insert (fst f) (keys (db s))"
  proof (cases "getObject (db s) (fst f)")
    case None
    then show ?thesis
      using assms by (auto simp: refresh_folder_def scan_ok_def Let_def split_beta)
  next
    case (Some e)
    then have "fst f \<in> keys (db s)"
      using getObject_None_iff [of "db s" "fst f"] by simp
    then show ?thesis
      using Some by (auto simp: refresh_folder_def Let_def split_beta)
  qed
  show "scan_ok (refresh_folder f s)"
    using assms k by (auto simp: refresh_folder_def scan_ok_def Let_def split_beta)
qed

lemma refresh_folder_other:
  "k \<noteq> fst f \<Longrightarrow> getObject (db (refresh_folder f s)) k = getObject (db s) k"
  by (simp add: refresh_folder_def Let_def split_beta)

lemma refresh_folders_seen:
  assumes "scan_ok s"
  shows "scan_ok (fold refresh_folder fs s)
    \<and> seenKeys (fold refresh_folder fs s) = seenKeys s \<union> fst ` set fs
    \<and> seenFolders (fold refresh_folder fs s) = seenFolders s \<union> fst ` set fs
    \<and> keys (db (fold refresh_folder fs s)) = keys (db s) \<union> fst ` set fs"
  using assms
proof (induction fs arbitrary: s)
  case Nil
  then show ?case by simp
next
  case (Cons f fs)
  show ?case
    using Cons.IH [OF refresh_folder_seen(4) [OF Cons.prems, of f]]
      refresh_folder_seen(1-3) [OF Cons.prems, of f]
    by auto
qed

lemma refresh_folders_other:
  "k \<notin> fst ` set fs \<Longrightarrow> getObject (db (fold refresh_folder fs s)) k = getObject (db s) k"
  by (induction fs arbitrary: s) (simp_all add: refresh_folder_other)

lemma refresh_file_seen:
  assumes "scan_ok s"
  shows "seenKeys (refresh_file obj s) = insert (obj_key obj) (seenKeys s)"
    and "seenFolders (refresh_file obj s) = seenFolders s"
    and "keys (db (refresh_file obj s)) = insert (obj_key obj) (keys (db s))"
    and "scan_ok (refresh_file obj s)"
proof -
  show "seenKeys (refresh_file obj s) = insert (obj_key obj) (seenKeys s)"
    by (simp add: refresh_file_def Let_def split_beta)
  show "seenFolders (refresh_file obj s) = seenFolders s"
    by (simp add: refresh_file_def Let_def split_beta)
  show k: "keys (db (refresh_file obj s)) = insert (obj_key obj) (keys (db s))"
  proof (cases "getObject (db s) (obj_key obj)")
    case None
    then show ?thesis by (simp add: refresh_file_def Let_def split_beta)
  next
    case (Some e)
    then have "obj_key obj \<in> keys (db s)"
      using getObject_None_iff [of "db s" "obj_key obj"] by simp
    then show ?thesis
      using Some by (auto simp: refresh_file_def Let_def split_beta)
  qed
  show "scan_ok (refresh_file obj s)"
    using assms k by (auto simp: refresh_file_def scan_ok_def Let_def split_beta)
qed

lemma refresh_file_other:
  "k \<noteq> obj_key obj \<Longrightarrow> getObject (db (refresh_file obj s)) k = getObject (db s) k"
  by (simp add: refresh_file_def Let_def split_beta)

lemma refresh_object_seen:
  assumes "scan_ok s"
  shows "scan_ok (refresh_object obj s)"
    and "seenKeys (refresh_object obj s)
           = seenKeys s \<union> set (obj_key obj # folder_keys (obj_key obj))"
    and "keys (db (refresh_object obj s))
           = keys (db s) \<union> set (obj_key obj # folder_keys (obj_key obj))"
proof -
  let ?s1 = "fold refresh_folder (folderPrefixesForKey (obj_key obj)) s"
  note f = refresh_folders_seen [OF assms, of "folderPrefixesForKey (obj_key obj)"]
  have ok: "scan_ok ?s1" using f by simp
  show "scan_ok (refresh_object obj s)"
    using refresh_file_seen(4) [OF ok] by (simp add: refresh_object_def Let_def)
  show "seenKeys (refresh_object obj s)
           = seenKeys s \<union> set (obj_key obj # folder_keys (obj_key obj))"
    using refresh_file_seen(1) [OF ok, of obj] f
    by (auto simp: refresh_object_def Let_def folder_keys_def)
  show "keys (db (refresh_object obj s))
           = keys (db s) \<union> set (obj_key obj # folder_keys (obj_key obj))"
    using refresh_file_seen(3) [OF ok, of obj] f
    by (auto simp: refresh_object_def Let_def folder_keys_def)
qed

lemma refresh_object_other:
  assumes "k \<notin> set (obj_key obj # folder_keys (obj_key obj))"
  shows "getObject (db (refresh_object obj s)) k = getObject (db s) k"
  using assms
  by (simp add: refresh_object_def Let_def folder_keys_def refresh_file_other
      refresh_folders_other)

lemma refresh_scan_seen:
  assumes "scan_ok s"
  shows "scan_ok (fold refresh_object objs s)
    \<and> seenKeys (fold refresh_object objs s) = seenKeys s \<union> observed_keys objs
    \<and> keys (db (fold refresh_object objs s)) = keys (db s) \<union> observed_keys objs"
  using assms
proof (induction objs arbitrary: s)
  case Nil
  then show ?case by (simp add: observed_keys_def)
next
  case (Cons obj objs)
  show ?case
    using Cons.IH [OF refresh_object_seen(1) [OF Cons.prems, of obj]]
      refresh_object_seen(2,3) [OF Cons.prems, of obj]
    by (auto simp: observed_keys_def)
qed

lemma refresh_scan_other:
  "k \<notin> observed_keys objs \<Longrightarrow>
     getObject (db (fold refresh_object objs s)) k = getObject (db s) k"
  by (induction objs arbitrary: s) (simp_all add: observed_keys_def refresh_object_other)

lemma scan_ok_new_scan [simp]: "scan_ok (new_scan w)"
  by (simp add: scan_ok_def new_scan_def)

lemma keys_new_scan [simp]: "keys (db (new_scan w)) = keys w" "seenKeys (new_scan w) = {}"
  by (simp_all add: new_scan_def)

lemma getObject_new_scan [simp]: "getObject (db (new_scan w)) k = getObject w k"
  by (simp add: new_scan_def)

section \<open>A listing that fails\<close>

lemma refreshIndex_Thrown:
  assumes "ending replies = Thrown e"
  shows "refreshIndex replies w
           = (Rejected e, db (fold refresh_object (listed [] replies) (new_scan w)))"
  using assms by (simp add: refreshIndex_def walkAllObjects_fold)

text \<open>
  Claim C1. When the enumeration of \<open>refreshIndex\<close> raises an error, the run is
  rejected with that error and the deletion sweep is not run: the world is the one the
  callback left after the pages already processed. Every key stored before the run is
  still stored, the stored keys are those and the keys observed on the processed pages,
  a row whose key was not observed is unchanged, and the scan state is not written.
\<close>

theorem refresh_failed_listing_deletes_nothing:
  assumes "fst (walkAllObjects [] refresh_object replies (new_scan w)) = Thrown e"
  shows "fst (refreshIndex replies w) = Rejected e
    \<and> snd (refreshIndex replies w)
        = db (snd (walkAllObjects [] refresh_object replies (new_scan w)))
    \<and> keys w \<subseteq> keys (snd (refreshIndex replies w))
    \<and> keys (snd (refreshIndex replies w)) = keys w \<union> observed_keys (listed [] replies)
    \<and> (\<forall>k. k \<notin> observed_keys (listed [] replies)
          \<longrightarrow> getObject (snd (refreshIndex replies w)) k = getObject w k)
    \<and> index_state (snd (refreshIndex replies w)) = index_state w"
proof -
  let ?s = "fold refresh_object (listed [] replies) (new_scan w)"
  have e: "ending replies = Thrown e"
    using assms by (simp add: walkAllObjects_fold)
  have r: "refreshIndex replies w = (Rejected e, db ?s)"
    using e by (rule refreshIndex_Thrown)
  have k: "keys (db ?s) = keys w \<union> observed_keys (listed [] replies)"
    using refresh_scan_seen [of "new_scan w" "listed [] replies"] by simp
  have o: "\<forall>k. k \<notin> observed_keys (listed [] replies) \<longrightarrow> getObject (db ?s) k = getObject w k"
    by (simp add: refresh_scan_other)
  have i: "index_state (db ?s) = index_state w"
    using refresh_scan_same_state [of w "listed [] replies"] by (simp add: same_state_def)
  show ?thesis
    using k o i by (simp add: r walkAllObjects_fold)
qed

lemma failed_listing_example:
  "fst (walkAllObjects [] refresh_object
          [page0 [item0 ''a.txt'' 3] (Some ''page-2''), Inl (ListingError ''timeout'')]
          (new_scan (world0 [stored0 ''b.txt'' 4 ''2024-04-30T09:00:00.000Z''])))
     = Thrown (ListingError ''timeout'')"
  by code_simp

lemma failed_listing_observed:
  "observed_keys (listed []
      [page0 [item0 ''a.txt'' 3] (Some ''page-2''), Inl (ListingError ''timeout'')]) = {''a.txt''}"
  "keys (world0 [stored0 ''b.txt'' 4 ''2024-04-30T09:00:00.000Z'']) = {''b.txt''}"
  by code_simp+

theorem refresh_failed_listing_deletes_nothing_witness:
  "fst (refreshIndex [page0 [item0 ''a.txt'' 3] (Some ''page-2''), Inl (ListingError ''timeout'')]
          (world0 [stored0 ''b.txt'' 4 ''2024-04-30T09:00:00.000Z'']))
     = Rejected (ListingError ''timeout'')
   \<and> keys (snd (refreshIndex
          [page0 [item0 ''a.txt'' 3] (Some ''page-2''), Inl (ListingError ''timeout'')]
          (world0 [stored0 ''b.txt'' 4 ''2024-04-30T09:00:00.000Z''])))
     = {''b.txt''} \<union> {''a.txt''}"
proof -
  note t = refresh_failed_listing_deletes_nothing [OF failed_listing_example]
  from t have 1: "fst (refreshIndex
          [page0 [item0 ''a.txt'' 3] (Some ''page-2''), Inl (ListingError ''timeout'')]
          (world0 [stored0 ''b.txt'' 4 ''2024-04-30T09:00:00.000Z'']))
     = Rejected (ListingError ''timeout'')"
    by (rule conjunct1)
  from t have 2: "keys (snd (refreshIndex
          [page0 [item0 ''a.txt'' 3] (Some ''page-2''), Inl (ListingError ''timeout'')]
          (world0 [stored0 ''b.txt'' 4 ''2024-04-30T09:00:00.000Z''])))
     = keys (world0 [stored0 ''b.txt'' 4 ''2024-04-30T09:00:00.000Z''])
       \<union> observed_keys (listed []
            [page0 [item0 ''a.txt'' 3] (Some ''page-2''), Inl (ListingError ''timeout'')])"
    by blast
  show ?thesis
    using 1 2 by (simp only: failed_listing_observed) 
qed

section \<open>The deletion sweep\<close>

lemma sweep_fold:
  "object_index (fst (fold (sweep_key seen) ks (w, n)))
     = filter (\<lambda>kr. fst kr \<in> seen \<or> fst kr \<notin> set ks) (object_index w)
   \<and> snd (fold (sweep_key seen) ks (w, n)) = n + int (length (filter (\<lambda>k. k \<notin> seen) ks))"
proof (induction ks arbitrary: w n)
  case Nil
  then show ?case by simp
next
  case (Cons k ks)
  show ?case
  proof (cases "k \<in> seen")
    case True
    then show ?thesis
      using Cons.IH [of w n] by (auto simp: sweep_key_def intro: filter_cong)
  next
    case False
    then show ?thesis
      using Cons.IH [of "deleteObjectStmt k w" "n + 1"]
      by (auto simp: sweep_key_def AList.delete_eq split_def intro: filter_cong)
  qed
qed

lemma sweep_table:
  "object_index (fst (sweep seen w)) = filter (\<lambda>kr. fst kr \<in> seen) (object_index w)"
proof -
  have "object_index (fst (sweep seen w))
        = filter (\<lambda>kr. fst kr \<in> seen \<or> fst kr \<notin> set (map fst (object_index w))) (object_index w)"
    unfolding sweep_def using sweep_fold [of seen "map fst (object_index w)" w 0] by simp
  also have "\<dots> = filter (\<lambda>kr. fst kr \<in> seen) (object_index w)"
    by (rule filter_cong) auto
  finally show ?thesis .
qed

lemma sweep_removed:
  "snd (sweep seen w) = int (length (filter (\<lambda>k. k \<notin> seen) (map fst (object_index w))))"
  unfolding sweep_def using sweep_fold [of seen "map fst (object_index w)" w 0] by simp

lemma sweep_removed_card:
  assumes "distinct (map fst (object_index w))"
  shows "snd (sweep seen w) = int (card (keys w - seen))"
proof -
  have "length (filter (\<lambda>k. k \<notin> seen) (map fst (object_index w)))
        = card ({k. k \<notin> seen} \<inter> set (map fst (object_index w)))"
    using assms by (rule distinct_length_filter)
  moreover have "{k. k \<notin> seen} \<inter> set (map fst (object_index w)) = keys w - seen"
    by (auto simp: keys_def)
  ultimately show ?thesis by (simp add: sweep_removed)
qed

lemma sweep_keys: "keys (fst (sweep seen w)) = keys w \<inter> seen"
  by (auto simp: keys_def sweep_table)

lemma map_of_filter_keys:
  "map_of (filter (\<lambda>kr. fst kr \<in> A) al) k = (if k \<in> A then map_of al k else None)"
  by (induction al) auto

lemma sweep_getObject:
  "k \<in> seen \<Longrightarrow> getObject (fst (sweep seen w)) k = getObject w k"
  by (simp add: getObject_def sweep_table map_of_filter_keys)

lemma refresh_scan_distinct:
  assumes "distinct (map fst (object_index w))"
  shows "distinct (map fst (object_index (db (fold refresh_object objs (new_scan w)))))"
proof -
  let ?P = "\<lambda>s. distinct (map fst (object_index (db s)))"
  have step_folder: "?P (refresh_folder f s)" if "?P s" for f s
    using that by (simp add: refresh_folder_def Let_def split_beta distinct_update)
  have step_file: "?P (refresh_file x s)" if "?P s" for x s
    using that by (simp add: refresh_file_def Let_def split_beta distinct_update)
  have step_object: "?P (refresh_object x s)" if "?P s" for x s
    unfolding refresh_object_def Let_def
    by (rule step_file, rule fold_invariant [where P = ?P]) (simp_all add: that step_folder)
  show ?thesis
    by (rule fold_invariant [where P = ?P]) (simp_all add: assms new_scan_def step_object)
qed

lemma refreshIndex_Done:
  fixes replies :: remote and w :: world
  assumes "ending replies = Done"
  defines "s \<equiv> fold refresh_object (listed [] replies) (new_scan w)"
  shows "\<exists>r. fst (refreshIndex replies w) = Resolved r
            \<and> sum_added r = added s \<and> sum_updated r = updated s
            \<and> sum_removed r = snd (sweep (seenKeys s) (db s))"
    and "object_index (snd (refreshIndex replies w))
           = object_index (fst (sweep (seenKeys s) (db s)))"
  using assms(1)
  by (simp_all add: s_def refreshIndex_def walkAllObjects_fold Let_def split_beta)

text \<open>
  Claim C4. When the enumeration completes, \<open>refreshIndex\<close> deletes exactly the keys
  that were stored and were not observed during the run (as a listed key or as the key of
  an ancestor folder), reports their number as \<open>removed\<close>, and leaves the rows of the
  observed keys as the scan wrote them. With \<open>a.txt\<close> and \<open>b.txt\<close> stored and only
  \<open>a.txt\<close> listed, the summary is \<open>{added: 0, updated: 0, removed: 1, files: 1,
  folders: 0}\<close> and a later search returns \<open>a.txt\<close> only.
\<close>

theorem refresh_removes_unobserved:
  assumes "fst (walkAllObjects [] refresh_object replies (new_scan w)) = Done"
    and "distinct (map fst (object_index w))"
  shows "(\<exists>r. fst (refreshIndex replies w) = Resolved r
            \<and> sum_removed r = int (card (keys w - observed_keys (listed [] replies))))
    \<and> keys (snd (refreshIndex replies w))
        = (keys w \<union> observed_keys (listed [] replies))
          - (keys w - observed_keys (listed [] replies))
    \<and> (\<forall>k \<in> observed_keys (listed [] replies).
          getObject (snd (refreshIndex replies w)) k
            = getObject (db (snd (walkAllObjects [] refresh_object replies (new_scan w)))) k)
    \<and> (let w' = world0 [stored0 ''a.txt'' 3 ''2024-04-30T09:00:00.000Z'',
                         stored0 ''b.txt'' 4 ''2024-04-30T09:00:00.000Z''];
           run = refreshIndex [page0 [item0 ''a.txt'' 3] None] w'
       in fst run = Resolved \<lparr>sum_added = 0, sum_updated = 0, sum_removed = 1, sum_files = 1,
                               sum_folders' = 0\<rparr>
          \<and> ''b.txt'' \<notin> keys (snd run)
          \<and> map_sum id (\<lambda>res. map item_key (items res)) (fst (searchIndexedObjects
                \<lparr>search = None, limit = None, offset = None\<rparr> (snd run))) = Inr [''a.txt''])"
proof -
  let ?obs = "observed_keys (listed [] replies)"
  let ?s = "fold refresh_object (listed [] replies) (new_scan w)"
  have d: "ending replies = Done"
    using assms(1) by (simp add: walkAllObjects_fold)
  have seen: "seenKeys ?s = ?obs" and ks: "keys (db ?s) = keys w \<union> ?obs"
    using refresh_scan_seen [of "new_scan w" "listed [] replies"] by simp_all
  have "snd (sweep (seenKeys ?s) (db ?s)) = int (card (keys (db ?s) - seenKeys ?s))"
    by (rule sweep_removed_card) (rule refresh_scan_distinct [OF assms(2)])
  moreover have "keys (db ?s) - seenKeys ?s = keys w - ?obs"
    using seen ks by auto
  ultimately have 1: "\<exists>r. fst (refreshIndex replies w) = Resolved r
            \<and> sum_removed r = int (card (keys w - ?obs))"
    using refreshIndex_Done(1) [OF d, of w] by auto
  have "keys (snd (refreshIndex replies w)) = keys (db ?s) \<inter> seenKeys ?s"
    using refreshIndex_Done(2) [OF d, of w] sweep_keys [of "seenKeys ?s" "db ?s"]
    by (simp add: keys_def)
  then have 2: "keys (snd (refreshIndex replies w)) = (keys w \<union> ?obs) - (keys w - ?obs)"
    using seen ks by auto
  have 3: "\<forall>k \<in> ?obs. getObject (snd (refreshIndex replies w)) k
            = getObject (db (snd (walkAllObjects [] refresh_object replies (new_scan w)))) k"
    using refreshIndex_Done(2) [OF d, of w] seen sweep_getObject [of _ "seenKeys ?s" "db ?s"]
    by (simp add: getObject_def walkAllObjects_fold)
  have 4: "let w' = world0 [stored0 ''a.txt'' 3 ''2024-04-30T09:00:00.000Z'',
                         stored0 ''b.txt'' 4 ''2024-04-30T09:00:00.000Z''];
           run = refreshIndex [page0 [item0 ''a.txt'' 3] None] w'
       in fst run = Resolved \<lparr>sum_added = 0, sum_updated = 0, sum_removed = 1, sum_files = 1,
                               sum_folders' = 0\<rparr>
          \<and> ''b.txt'' \<notin> keys (snd run)
          \<and> map_sum id (\<lambda>res. map item_key (items res)) (fst (searchIndexedObjects
                \<lparr>search = None, limit = None, offset = None\<rparr> (snd run))) = Inr [''a.txt'']"
    by code_simp
  show ?thesis using 1 2 3 4 by blast
qed

lemma removal_example:
  "fst (walkAllObjects [] refresh_object [page0 [item0 ''a.txt'' 3] None]
          (new_scan (world0 [stored0 ''a.txt'' 3 ''2024-04-30T09:00:00.000Z'',
                             stored0 ''b.txt'' 4 ''2024-04-30T09:00:00.000Z''])))
     = Done"
  "distinct (map fst (object_index (world0 [stored0 ''a.txt'' 3 ''2024-04-30T09:00:00.000Z'',
                                            stored0 ''b.txt'' 4 ''2024-04-30T09:00:00.000Z''])))"
  "keys (world0 [stored0 ''a.txt'' 3 ''2024-04-30T09:00:00.000Z'',
                 stored0 ''b.txt'' 4 ''2024-04-30T09:00:00.000Z'']) = {''a.txt'', ''b.txt''}"
  "observed_keys (listed [] [page0 [item0 ''a.txt'' 3] None]) = {''a.txt''}"
  by code_simp+

theorem refresh_removes_unobserved_witness:
  "keys (snd (refreshIndex [page0 [item0 ''a.txt'' 3] None]
          (world0 [stored0 ''a.txt'' 3 ''2024-04-30T09:00:00.000Z'',
                   stored0 ''b.txt'' 4 ''2024-04-30T09:00:00.000Z''])))
     = {''a.txt''}
   \<and> (\<exists>r. fst (refreshIndex [page0 [item0 ''a.txt'' 3] None]
          (world0 [stored0 ''a.txt'' 3 ''2024-04-30T09:00:00.000Z'',
                   stored0 ''b.txt'' 4 ''2024-04-30T09:00:00.000Z'']))
          = Resolved r \<and> sum_removed r = 1)"
proof -
  note t = refresh_removes_unobserved [OF removal_example(1) removal_example(2)]
  have a: "({''a.txt'', ''b.txt''} \<union> {''a.txt''}) - ({''a.txt'', ''b.txt''} - {''a.txt''})
            = {''a.txt''}"
    by auto
  have b: "int (card ({''a.txt'', ''b.txt''} - {''a.txt''})) = 1"
    by simp
  from t have "keys (snd (refreshIndex [page0 [item0 ''a.txt'' 3] None]
          (world0 [stored0 ''a.txt'' 3 ''2024-04-30T09:00:00.000Z'',
                   stored0 ''b.txt'' 4 ''2024-04-30T09:00:00.000Z''])))
     = {''a.txt''}"
    unfolding removal_example(3,4) a by (rule conjunct1 [OF conjunct2])
  moreover from t have "\<exists>r. fst (refreshIndex [page0 [item0 ''a.txt'' 3] None]
          (world0 [stored0 ''a.txt'' 3 ''2024-04-30T09:00:00.000Z'',
                   stored0 ''b.txt'' 4 ''2024-04-30T09:00:00.000Z'']))
          = Resolved r \<and> sum_removed r = 1"
    unfolding removal_example(3,4) b by (rule conjunct1)
  ultimately show ?thesis by (rule conjI)
qed

section \<open>Pagination\<close>

lemma length_rows_to_items: "length (fst (rows_to_items rows w)) = length rows"
  by (induction rows arbitrary: w) (simp_all add: split_beta Let_def)

lemma item_key_row_to_item [simp]: "item_key (fst (row_to_item kr w)) = fst kr"
  by (simp add: row_to_item_def Let_def split_beta)

lemma item_keys_rows_to_items: "map item_key (fst (rows_to_items rows w)) = map fst rows"
  by (induction rows arbitrary: w) (simp_all add: split_beta Let_def)

text \<open>The clamps, number by number.\<close>

lemma effective_limit_cases:
  "effective_limit params =
     (case limit params of
        None \<Rightarrow> Finite 20
      | Some NaN \<Rightarrow> NaN
      | Some NegativeInfinity \<Rightarrow> Finite 1
      | Some (Finite x) \<Rightarrow> Finite (min (max x 1) 200)
      | Some PositiveInfinity \<Rightarrow> Finite 200)"
  by (simp add: effective_limit_def split: option.splits number.splits)

lemma effective_offset_cases:
  "effective_offset params =
     (case offset params of
        None \<Rightarrow> Finite 0
      | Some NaN \<Rightarrow> NaN
      | Some NegativeInfinity \<Rightarrow> Finite 0
      | Some (Finite x) \<Rightarrow> Finite (max x 0)
      | Some PositiveInfinity \<Rightarrow> PositiveInfinity)"
  by (simp add: effective_offset_def split: option.splits number.splits)

text \<open>
  A limit that is a number is clamped into \<open>[1, 200]\<close> and kept when it is there
  already; an offset that is a number is clamped to at least 0 and kept when it is not
  negative. The defaults are 20 and 0.
\<close>

lemma search_clamps_numbers:
  "limit params = None \<Longrightarrow> effective_limit params = Finite 20"
  "limit params = Some (Finite x) \<Longrightarrow> effective_limit params = Finite (min (max x 1) 200)"
  "limit params = Some (Finite x) \<Longrightarrow> 1 \<le> x \<Longrightarrow> x \<le> 200 \<Longrightarrow> effective_limit params = Finite x"
  "limit params = Some (Finite x) \<Longrightarrow> x < 1 \<Longrightarrow> effective_limit params = Finite 1"
  "limit params = Some (Finite x) \<Longrightarrow> 200 < x \<Longrightarrow> effective_limit params = Finite 200"
  "limit params = Some NegativeInfinity \<Longrightarrow> effective_limit params = Finite 1"
  "limit params = Some PositiveInfinity \<Longrightarrow> effective_limit params = Finite 200"
  "offset params = None \<Longrightarrow> effective_offset params = Finite 0"
  "offset params = Some (Finite y) \<Longrightarrow> effective_offset params = Finite (max y 0)"
  "offset params = Some (Finite y) \<Longrightarrow> 0 \<le> y \<Longrightarrow> effective_offset params = Finite y"
  "offset params = Some (Finite y) \<Longrightarrow> y < 0 \<Longrightarrow> effective_offset params = Finite 0"
  "offset params = Some NegativeInfinity \<Longrightarrow> effective_offset params = Finite 0"
  by (simp_all add: effective_limit_cases effective_offset_cases)

lemma search_limit_in_range:
  assumes "limit params \<noteq> Some NaN"
  shows "\<exists>x. effective_limit params = Finite x \<and> 1 \<le> x \<and> x \<le> 200"
  using assms by (auto simp: effective_limit_cases split: option.splits number.splits)

lemma search_offset_in_range:
  assumes "offset params \<noteq> Some NaN" and "offset params \<noteq> Some PositiveInfinity"
  shows "\<exists>y. effective_offset params = Finite y \<and> 0 \<le> y"
  using assms by (auto simp: effective_offset_cases split: option.splits number.splits)

text \<open>The search reads the limit and the offset through their clamped values only.\<close>

lemma search_only_effective:
  assumes "effective_limit p = effective_limit q" and "effective_offset p = effective_offset q"
    and "search p = search q"
  shows "searchIndexedObjects p w = searchIndexedObjects q w"
proof -
  have sel: "selected p w = selected q w"
    using assms(3) by (simp add: selected_def search_pattern_def)
  show ?thesis
    unfolding searchIndexedObjects_def assms(1) assms(2) sel by (rule refl)
qed

lemma search_limit_10000:
  "searchIndexedObjects (params\<lparr>limit := Some (Finite 10000)\<rparr>) w
     = searchIndexedObjects (params\<lparr>limit := Some (Finite 200)\<rparr>) w"
  by (rule search_only_effective) (simp_all add: effective_limit_def effective_offset_def)

text \<open>The page of a search whose limit and offset SQLite takes as integers.\<close>

lemma search_page:
  assumes "bind_integer (effective_limit params) = Some l"
    and "bind_integer (effective_offset params) = Some off"
    and "selected params w = Inr sel"
  shows "\<exists>res. fst (searchIndexedObjects params w) = Inr res
           \<and> total res = int (length sel)
           \<and> map item_key (items res)
               = map fst (take (nat l) (drop (nat off) (order_by_updated_at_desc sel)))"
  using assms
  by (simp add: searchIndexedObjects_def Let_def split_beta item_keys_rows_to_items)

lemma bind_integer_limit:
  assumes "bind_integer (effective_limit params) = Some l"
  shows "1 \<le> l \<and> l \<le> 200"
proof -
  obtain x where x: "effective_limit params = Finite x" "of_int \<lfloor>x\<rfloor> = x" "l = \<lfloor>x\<rfloor>"
    using assms by (cases "effective_limit params") (auto split: if_splits)
  have "limit params \<noteq> Some NaN"
    using x(1) by (auto simp: effective_limit_cases)
  then have "1 \<le> x \<and> x \<le> 200"
    using search_limit_in_range [of params] x(1) by auto
  then show ?thesis using x(2,3) by (simp add: le_floor_iff floor_le_iff)
qed

lemma bind_integer_offset:
  assumes "bind_integer (effective_offset params) = Some off"
  shows "0 \<le> off"
proof -
  obtain y where y: "effective_offset params = Finite y" "off = \<lfloor>y\<rfloor>"
    using assms by (cases "effective_offset params") (auto split: if_splits)
  then have "0 \<le> y"
    by (auto simp: effective_offset_cases split: option.splits number.splits)
  then show ?thesis using y(2) by simp
qed

text \<open>A limit or an offset that SQLite does not take as an integer fails the search.\<close>

lemma search_datatype_mismatch:
  assumes "bind_integer (effective_limit params) = None
           \<or> bind_integer (effective_offset params) = None"
  shows "searchIndexedObjects params w = (Inl DatatypeMismatch, w)"
  using assms by (auto simp: searchIndexedObjects_def Let_def split: option.splits)

text \<open>
  Claim C7 at a limit that is not a number. \<open>Math.max\<close> and \<open>Math.min\<close> return
  \<open>NaN\<close> for it, so the effective limit is \<open>NaN\<close> and not a number of \<open>[1, 200]\<close>;
  bound to \<open>LIMIT ?\<close> it fails the statement, and the search returns no page. The same
  happens to an offset that is not a number. With the limit 1, or the offset 1, the
  search over the same two entries returns the newer, or the older, of them.
\<close>

theorem search_limit_not_a_number:
  "effective_limit \<lparr>search = None, limit = Some NaN, offset = None\<rparr> = NaN
   \<and> effective_offset \<lparr>search = None, limit = None, offset = Some NaN\<rparr> = NaN
   \<and> fst (searchIndexedObjects \<lparr>search = None, limit = Some NaN, offset = None\<rparr>
        (world0 [stored0 ''a.txt'' 3 ''2024-04-30T09:00:00.000Z'',
                 stored0 ''b.txt'' 4 ''2024-04-30T09:30:00.000Z'']))
       = Inl DatatypeMismatch
   \<and> fst (searchIndexedObjects \<lparr>search = None, limit = None, offset = Some NaN\<rparr>
        (world0 [stored0 ''a.txt'' 3 ''2024-04-30T09:00:00.000Z'',
                 stored0 ''b.txt'' 4 ''2024-04-30T09:30:00.000Z'']))
       = Inl DatatypeMismatch
   \<and> fst (searchIndexedObjects \<lparr>search = None, limit = Some (Finite 1), offset = None\<rparr>
        (world0 [stored0 ''a.txt'' 3 ''2024-04-30T09:00:00.000Z'',
                 stored0 ''b.txt'' 4 ''2024-04-30T09:30:00.000Z'']))
       = Inr \<lparr>items = [\<lparr>item_key = ''b.txt'', item_name = ''b.txt'',
                          item_extension = Some ''txt'', item_size = 4,
                          item_lastModified = Some ''2024-04-30T08:15:00.000Z'',
                          item_updatedAt = ''2024-04-30T09:30:00.000Z'',
                          item_type = ''file''\<rparr>],
              total = 2\<rparr>
   \<and> fst (searchIndexedObjects \<lparr>search = None, limit = None, offset = Some (Finite 1)\<rparr>
        (world0 [stored0 ''a.txt'' 3 ''2024-04-30T09:00:00.000Z'',
                 stored0 ''b.txt'' 4 ''2024-04-30T09:30:00.000Z'']))
       = Inr \<lparr>items = [\<lparr>item_key = ''a.txt'', item_name = ''a.txt'',
                          item_extension = Some ''txt'', item_size = 3,
                          item_lastModified = Some ''2024-04-30T08:15:00.000Z'',
                          item_updatedAt = ''2024-04-30T09:00:00.000Z'',
                          item_type = ''file''\<rparr>],
              total = 2\<rparr>"
  by code_simp

section \<open>Search\<close>

lemma lower_char_idem [simp]: "lower_char (lower_char c) = lower_char c"
  by (cases c) auto

lemma lower_char_special:
  "lower_char c = CHR ''%'' \<longleftrightarrow> c = CHR ''%''" "lower_char c = CHR ''_'' \<longleftrightarrow> c = CHR ''_''"
  "lower_char c = CHR 0x00 \<longleftrightarrow> c = CHR 0x00"
  by (cases c; auto)+

lemma is_continuation_lower [simp]: "is_continuation (lower_char c) = is_continuation c"
  by (cases c) auto

lemma is_ascii_not_continuation: "is_ascii c \<Longrightarrow> \<not> is_continuation c"
  by (cases c) simp

lemma sql_lower_idem [simp]: "sql_lower (sql_lower s) = sql_lower s"
  by (simp add: sql_lower_def)

lemma sql_lower_c_string: "sql_lower (c_string s) = c_string (sql_lower s)"
  by (simp add: sql_lower_def c_string_def takeWhile_map comp_def lower_char_special)

lemma c_string_no_NUL: "CHR 0x00 \<notin> set s \<Longrightarrow> c_string s = s"
  by (auto simp: c_string_def takeWhile_eq_all_conv)

lemma length_utf8_rest: "length (utf8_rest c cs) \<le> length cs"
  by (simp add: utf8_rest_def length_dropWhile_le)

lemma like_percent: "like ''%'' t"
proof (induction "length t" arbitrary: t rule: less_induct)
  case less
  show ?case
  proof (cases t)
    case Nil
    then show ?thesis by simp
  next
    case (Cons c cs)
    have "length (utf8_rest c cs) < length t"
      using length_utf8_rest [of c cs] Cons by simp
    then have "like ''%'' (utf8_rest c cs)"
      by (rule less)
    then show ?thesis using Cons by simp
  qed
qed

lemma like_plain:
  assumes "CHR ''%'' \<notin> set p" "CHR ''_'' \<notin> set p"
  shows "like (p @ ''%'') t \<longleftrightarrow> prefix (sql_lower p) (sql_lower t)"
  using assms
proof (induction p arbitrary: t)
  case Nil
  then show ?case by (simp add: sql_lower_def like_percent)
next
  case (Cons a p)
  then show ?case by (cases t) (auto simp: sql_lower_def)
qed

lemma sublist_dropWhile:
  assumes "xs \<noteq> []" and "\<not> P (hd xs)"
  shows "sublist xs (dropWhile P ys) \<longleftrightarrow> sublist xs ys"
proof (induction ys)
  case Nil
  then show ?case by simp
next
  case (Cons y ys)
  show ?case
  proof (cases "P y")
    case True
    have "\<not> prefix xs (y # ys)"
      using assms True by (cases xs) auto
    then show ?thesis using Cons True by (simp add: sublist_Cons_right)
  next
    case False
    then show ?thesis by simp
  qed
qed

lemma sublist_utf8_rest:
  assumes "list_all is_ascii p"
  shows "sublist (sql_lower p) (sql_lower (utf8_rest c cs)) \<longleftrightarrow> sublist (sql_lower p) (sql_lower cs)"
proof (cases "p = []")
  case True
  then show ?thesis by (simp add: sql_lower_def)
next
  case False
  then have "is_ascii (hd p)" using assms by (cases p) simp_all
  then have "\<not> is_continuation (hd (sql_lower p))"
    using False by (cases p) (simp_all add: sql_lower_def is_ascii_not_continuation)
  moreover have "sql_lower p \<noteq> []" using False by (simp add: sql_lower_def)
  moreover have "sql_lower (dropWhile is_continuation cs)
                   = dropWhile is_continuation (sql_lower cs)"
    by (simp add: sql_lower_def dropWhile_map comp_def)
  ultimately show ?thesis
    by (simp add: utf8_rest_def sublist_dropWhile)
qed

lemma like_contains:
  assumes "CHR ''%'' \<notin> set p" "CHR ''_'' \<notin> set p" "list_all is_ascii p"
  shows "like (''%'' @ p @ ''%'') t \<longleftrightarrow> sublist (sql_lower p) (sql_lower t)"
proof (induction "length t" arbitrary: t rule: less_induct)
  case less
  show ?case
  proof (cases t)
    case Nil
    then show ?thesis
      using like_plain [OF assms(1,2), of "[]"] by (simp add: sql_lower_def)
  next
    case (Cons c cs)
    have "length (utf8_rest c cs) < length t"
      using length_utf8_rest [of c cs] Cons by simp
    then have "like (''%'' @ p @ ''%'') (utf8_rest c cs)
                 \<longleftrightarrow> sublist (sql_lower p) (sql_lower (utf8_rest c cs))"
      by (rule less)
    then have "like (''%'' @ p @ ''%'') (utf8_rest c cs) \<longleftrightarrow> sublist (sql_lower p) (sql_lower cs)"
      by (simp add: sublist_utf8_rest [OF assms(3)])
    moreover have "like (''%'' @ p @ ''%'') (c # cs)
        \<longleftrightarrow> like (p @ ''%'') (c # cs) \<or> like (''%'' @ p @ ''%'') (utf8_rest c cs)"
      by simp
    ultimately show ?thesis
      using like_plain [OF assms(1,2), of "c # cs"] Cons
      by (simp add: sql_lower_def sublist_Cons_right)
  qed
qed

lemma sql_like_contains:
  assumes "literal_needle needle"
  shows "sql_like (''%'' @ needle @ ''%'') (sql_lower t)
           \<longleftrightarrow> sublist (sql_lower needle) (c_string (sql_lower t))"
proof -
  have "c_string (''%'' @ needle @ ''%'') = ''%'' @ needle @ ''%''"
    using assms by (intro c_string_no_NUL) (simp add: literal_needle_def)
  moreover have "like (''%'' @ needle @ ''%'') (c_string (sql_lower t))
        \<longleftrightarrow> sublist (sql_lower needle) (sql_lower (c_string (sql_lower t)))"
    using assms by (intro like_contains) (simp_all add: literal_needle_def)
  ultimately show ?thesis
    by (simp add: sql_like_def sql_lower_c_string)
qed

lemma where_like_contains:
  assumes "literal_needle needle"
  shows "where_like (''%'' @ needle @ ''%'') kr \<longleftrightarrow> contains_needle needle kr"
  unfolding where_like_def contains_needle_def sql_like_contains [OF assms]
  by (simp split: option.splits)

lemma strip_leading_Nil [simp]: "strip_leading ws [] = []"
proof -
  have "find (\<lambda>w. w \<noteq> [] \<and> prefix w []) ws = None"
    by (simp add: find_None_iff)
  then show ?thesis by (subst strip_leading.simps) simp
qed

lemma trim_Nil [simp]: "trim [] = []"
  by (simp add: trim_def trimStart_def trimEnd_def)

lemma toLowerCase_Nil [simp]: "toLowerCase unicode [] = []"
  by (simp add: toLowerCase_def)

lemma search_pattern_needle:
  assumes "search params = Some q"
  shows "search_pattern unicode params =
           (if trim (toLowerCase unicode q) = [] then None
            else Some (''%'' @ trim (toLowerCase unicode q) @ ''%''))"
proof (cases "q = []")
  case True
  then show ?thesis using assms by (simp add: search_pattern_def)
next
  case False
  then show ?thesis using assms by (simp add: search_pattern_def Let_def)
qed

lemma selected_needle:
  assumes "search params = Some q" and "literal_needle (trim (toLowerCase (unicode_lower w) q))"
  shows "selected params w =
           Inr (if trim (toLowerCase (unicode_lower w) q) = [] then object_index w
                else filter (contains_needle (trim (toLowerCase (unicode_lower w) q)))
                       (object_index w))"
proof -
  let ?n = "trim (toLowerCase (unicode_lower w) q)"
  have len: "\<not> 50000 < int (length (''%'' @ ?n @ ''%''))"
    using assms(2) by (simp add: literal_needle_def)
  have "filter (where_like (''%'' @ ?n @ ''%'')) (object_index w)
          = filter (contains_needle ?n) (object_index w)"
    using where_like_contains [OF assms(2)] by (intro filter_cong) simp_all
  then show ?thesis
    using len by (simp add: selected_def search_pattern_needle [OF assms(1)] del: append.simps)
qed

lemma sorted_desc:
  "sorted_wrt (\<lambda>a b. updated_at (snd b) \<le> updated_at (snd a)) (order_by_updated_at_desc rows)"
proof -
  have "sorted (map (\<lambda>kr. updated_at (snd kr)) (sort_key (\<lambda>kr. updated_at (snd kr)) (rev rows)))"
    by (rule sorted_sort_key)
  then show ?thesis
    by (simp add: order_by_updated_at_desc_def sorted_wrt_rev sorted_map)
qed

lemma mset_order_by [simp]: "mset (order_by_updated_at_desc rows) = mset rows"
  by (simp add: order_by_updated_at_desc_def)

text \<open>
  Claim C6, amended. The query is lower-cased by JavaScript and trimmed of the white
  space at its ends; what is left is the needle, and an empty needle is no query: every
  entry is selected. For a needle of ASCII characters other than \<open>%\<close>, \<open>_\<close> and NUL,
  short enough for SQLite to accept the pattern, and a limit and an offset whose clamped
  values are integers, the search selects exactly the entries whose name, key or
  extension, lower-cased by SQLite and read up to its first NUL, contains the needle
  (ASCII letters compared without case; an absent extension contains nothing):
  \<open>total\<close> is their number, and the items are the page, cut by the clamped offset and
  limit, of those entries in descending order of \<open>updated_at\<close>.
\<close>

theorem search_matches_needle:
  assumes "search params = Some q"
    and "needle = trim (toLowerCase (unicode_lower w) q)"
    and "literal_needle needle"
    and "bind_integer (effective_limit params) = Some l"
    and "bind_integer (effective_offset params) = Some off"
    and "matching = (if needle = [] then object_index w
                     else filter (contains_needle needle) (object_index w))"
  shows "\<exists>res rows. fst (searchIndexedObjects params w) = Inr res
           \<and> total res = int (length matching)
           \<and> mset rows = mset matching
           \<and> sorted_wrt (\<lambda>a b. updated_at (snd b) \<le> updated_at (snd a)) rows
           \<and> map item_key (items res) = map fst (take (nat l) (drop (nat off) rows))
           \<and> 1 \<le> l \<and> l \<le> 200 \<and> 0 \<le> off"
proof -
  have "selected params w = Inr matching"
    using selected_needle [OF assms(1)] assms(2,3,6) by simp
  from search_page [OF assms(4,5) this]
  obtain res where "fst (searchIndexedObjects params w) = Inr res"
    and "total res = int (length matching)"
    and "map item_key (items res)
           = map fst (take (nat l) (drop (nat off) (order_by_updated_at_desc matching)))"
    by blast
  then show ?thesis
    using sorted_desc [of matching] mset_order_by [of matching]
      bind_integer_limit [OF assms(4)] bind_integer_offset [OF assms(5)]
    by blast
qed

lemma search_example:
  "search \<lparr>search = Some ''Q1 '', limit = Some (Finite 10), offset = Some (Finite 0)\<rparr>
     = Some ''Q1 ''"
  "''q1'' = trim (toLowerCase (unicode_lower
      (world0 [stored0 ''reports/q1.csv'' 3 ''2024-04-30T09:00:00.000Z'',
               stored0 ''reports/q1-notes.md'' 4 ''2024-04-30T09:30:00.000Z'',
               stored0 ''reports/summary.txt'' 5 ''2024-04-30T09:45:00.000Z''])) ''Q1 '')"
  "literal_needle ''q1''"
  "bind_integer (effective_limit
      \<lparr>search = Some ''Q1 '', limit = Some (Finite 10), offset = Some (Finite 0)\<rparr>) = Some 10"
  "bind_integer (effective_offset
      \<lparr>search = Some ''Q1 '', limit = Some (Finite 10), offset = Some (Finite 0)\<rparr>) = Some 0"
  "[stored0 ''reports/q1.csv'' 3 ''2024-04-30T09:00:00.000Z'',
    stored0 ''reports/q1-notes.md'' 4 ''2024-04-30T09:30:00.000Z'']
   = (if ''q1'' = [] then object_index
        (world0 [stored0 ''reports/q1.csv'' 3 ''2024-04-30T09:00:00.000Z'',
                 stored0 ''reports/q1-notes.md'' 4 ''2024-04-30T09:30:00.000Z'',
                 stored0 ''reports/summary.txt'' 5 ''2024-04-30T09:45:00.000Z''])
      else filter (contains_needle ''q1'') (object_index
        (world0 [stored0 ''reports/q1.csv'' 3 ''2024-04-30T09:00:00.000Z'',
                 stored0 ''reports/q1-notes.md'' 4 ''2024-04-30T09:30:00.000Z'',
                 stored0 ''reports/summary.txt'' 5 ''2024-04-30T09:45:00.000Z''])))"
  by code_simp+

theorem search_matches_needle_witness:
  "\<exists>res. fst (searchIndexedObjects
        \<lparr>search = Some ''Q1 '', limit = Some (Finite 10), offset = Some (Finite 0)\<rparr>
        (world0 [stored0 ''reports/q1.csv'' 3 ''2024-04-30T09:00:00.000Z'',
                 stored0 ''reports/q1-notes.md'' 4 ''2024-04-30T09:30:00.000Z'',
                 stored0 ''reports/summary.txt'' 5 ''2024-04-30T09:45:00.000Z''])) = Inr res
     \<and> total res = 2"
  using search_matches_needle [OF search_example] by auto

text \<open>
  The claim as worded fails on a query with white space at an end: \<open>a\<close> followed by a
  space is in no field of the entry \<open>a.txt\<close>, and the search returns that entry.
\<close>

theorem search_trims_query_counterexample:
  "fst (searchIndexedObjects \<lparr>search = Some ''a '', limit = None, offset = None\<rparr>
      (world0 [stored0 ''a.txt'' 3 ''2024-04-30T09:00:00.000Z'']))
     = Inr \<lparr>items = [\<lparr>item_key = ''a.txt'', item_name = ''a.txt'',
                        item_extension = Some ''txt'', item_size = 3,
                        item_lastModified = Some ''2024-04-30T08:15:00.000Z'',
                        item_updatedAt = ''2024-04-30T09:00:00.000Z'',
                        item_type = ''file''\<rparr>],
            total = 1\<rparr>
   \<and> \<not> contains_needle (toLowerCase unicode0 ''a '')
         (stored0 ''a.txt'' 3 ''2024-04-30T09:00:00.000Z'')"
  by code_simp

section \<open>Folder markers\<close>

text \<open>
  A row that matches its object is not written by the part of the callback that handles
  the object, and stays as it is through a scan in which its key is not the key of an
  ancestor folder of a listed object.
\<close>

lemma refresh_file_matching:
  assumes "getObject (db s) (obj_key obj) = Some e" and "row_matches e obj"
  shows "refresh_file obj s = s\<lparr>seenKeys := insert (obj_key obj) (seenKeys s)\<rparr>"
  using assms by (simp add: refresh_file_def row_matches_def Let_def)

lemma refresh_scan_keeps_matching:
  assumes "getObject (db s) k = Some e"
    and "\<forall>obj \<in> set objs. k \<notin> set (folder_keys (obj_key obj))"
    and "\<forall>obj \<in> set objs. obj_key obj = k \<longrightarrow> row_matches e obj"
  shows "getObject (db (fold refresh_object objs s)) k = Some e"
  using assms
proof (induction objs arbitrary: s)
  case Nil
  then show ?case by simp
next
  case (Cons obj objs)
  let ?s1 = "fold refresh_folder (folderPrefixesForKey (obj_key obj)) s"
  have s1: "getObject (db ?s1) k = Some e"
    using Cons.prems(1,2) by (simp add: refresh_folders_other folder_keys_def)
  have "getObject (db (refresh_object obj s)) k = Some e"
  proof (cases "obj_key obj = k")
    case True
    then have "refresh_file obj ?s1 = ?s1\<lparr>seenKeys := insert (obj_key obj) (seenKeys ?s1)\<rparr>"
      using s1 Cons.prems(3) by (intro refresh_file_matching [where e = e]) simp_all
    then show ?thesis using s1 by (simp add: refresh_object_def Let_def getObject_def)
  next
    case False
    then show ?thesis using s1 by (simp add: refresh_object_def Let_def refresh_file_other)
  qed
  then show ?case using Cons.IH [of "refresh_object obj s"] Cons.prems(2,3) by simp
qed

text \<open>
  Claim C3 on a bucket that holds a folder marker: the object \<open>a/\<close>, as \<open>createFolder\<close>
  writes it, and the object \<open>a/b.txt\<close>. The row \<open>a/\<close> is written as a file for the
  marker and again as a folder for the ancestor of \<open>a/b.txt\<close>, in every run: the second
  of two runs over the same listing reports two updates.
\<close>

theorem refresh_twice_folder_marker:
  "fst (refreshIndex [page0 [item0 ''a/'' 0, item0 ''a/b.txt'' 3] None]
         (snd (refreshIndex [page0 [item0 ''a/'' 0, item0 ''a/b.txt'' 3] None] (world0 []))))
     = Resolved \<lparr>sum_added = 0, sum_updated = 2, sum_removed = 0, sum_files = 1,
                 sum_folders' = 1\<rparr>"
  by code_simp

text \<open>
  On the same bucket a row that matches its object is written: the stored row \<open>a/\<close>
  matches the listed object \<open>a/\<close> on type, size, modification time and checksum tag,
  and it is also the folder of \<open>a/b.txt\<close>, which the run stores as a folder row, with
  a new \<open>updated_at\<close>, and counts as an update.
\<close>

theorem refresh_rewrites_matching_marker:
  "getObject (world0 [stored0 ''a/'' 0 ''2024-04-30T09:00:00.000Z'',
                      stored0 ''a/b.txt'' 3 ''2024-04-30T09:00:00.000Z'']) ''a/''
     = Some (snd (stored0 ''a/'' 0 ''2024-04-30T09:00:00.000Z''))
   \<and> row_matches (snd (stored0 ''a/'' 0 ''2024-04-30T09:00:00.000Z''))
         (detail_of (item0 ''a/'' 0))
   \<and> getObject (snd (refreshIndex [page0 [item0 ''a/'' 0, item0 ''a/b.txt'' 3] None]
         (world0 [stored0 ''a/'' 0 ''2024-04-30T09:00:00.000Z'',
                  stored0 ''a/b.txt'' 3 ''2024-04-30T09:00:00.000Z'']))) ''a/''
     = Some (folder_row ''a'' ''2024-05-01T10:00:00.000Z'')
   \<and> fst (refreshIndex [page0 [item0 ''a/'' 0, item0 ''a/b.txt'' 3] None]
         (world0 [stored0 ''a/'' 0 ''2024-04-30T09:00:00.000Z'',
                  stored0 ''a/b.txt'' 3 ''2024-04-30T09:00:00.000Z'']))
     = Resolved \<lparr>sum_added = 0, sum_updated = 1, sum_removed = 0, sum_files = 1,
                 sum_folders' = 1\<rparr>"
  by code_simp

section \<open>Ancestor folders after a scan\<close>

lemma not_file_and_folder: "clean_folder w k \<Longrightarrow> \<not> is_file w k"
  by (auto simp: clean_folder_def is_file_def split: option.splits)

lemma clean_folder_is_folder: "clean_folder w k \<Longrightarrow> is_folder w k"
  by (auto simp: clean_folder_def is_folder_def split: option.splits)

lemma clean_folder_cong: "getObject w' k = getObject w k \<Longrightarrow> clean_folder w' k = clean_folder w k"
  by (simp add: clean_folder_def)

lemma is_file_cong: "getObject w' k = getObject w k \<Longrightarrow> is_file w' k = is_file w k"
  by (simp add: is_file_def)

text \<open>The two passes of a callback, described by what they do to the state of a scan.\<close>

lemma folders_pass:
  fixes F :: "string \<times> string \<Rightarrow> scan \<Rightarrow> scan"
  assumes seen: "\<And>f s. scan_ok s \<Longrightarrow>
            seenKeys (F f s) = insert (fst f) (seenKeys s)
            \<and> seenFolders (F f s) = insert (fst f) (seenFolders s) \<and> scan_ok (F f s)"
    and other: "\<And>f s k. k \<noteq> fst f \<Longrightarrow> getObject (db (F f s)) k = getObject (db s) k"
    and folder: "\<And>f s. (fst f \<in> seenFolders s \<longrightarrow> clean_folder (db s) (fst f))
            \<Longrightarrow> clean_folder (db (F f s)) (fst f)"
    and ok: "folders_ok s"
  shows "folders_ok (fold F fs s)
    \<and> seenFolders (fold F fs s) = seenFolders s \<union> fst ` set fs
    \<and> seenKeys (fold F fs s) = seenKeys s \<union> fst ` set fs"
  using ok
proof (induction fs arbitrary: s)
  case Nil
  then show ?case by simp
next
  case (Cons f fs)
  have sk: "scan_ok s" using Cons.prems by (simp add: folders_ok_def)
  note sn = seen [OF sk, of f]
  have fo: "clean_folder (db (F f s)) (fst f)"
    using Cons.prems by (intro folder) (simp add: folders_ok_def)
  have keep: "clean_folder (db (F f s)) k" if "k \<in> seenFolders s" for k
  proof (cases "k = fst f")
    case True
    then show ?thesis using fo by simp
  next
    case False
    then show ?thesis
      using that Cons.prems other [of k f s] by (simp add: folders_ok_def clean_folder_def)
  qed
  have files: "set (folder_keys k) \<subseteq> seenFolders (F f s)"
    if "k \<in> seenKeys (F f s)" "is_file (db (F f s)) k" for k
  proof -
    have "k \<noteq> fst f" using that(2) fo not_file_and_folder by blast
    then have "k \<in> seenKeys s" "is_file (db s) k"
      using that sn other [of k f s] by (simp_all add: is_file_def)
    then show ?thesis using Cons.prems sn by (auto simp: folders_ok_def)
  qed
  have "folders_ok (F f s)"
    unfolding folders_ok_def using sn fo keep files by auto
  from Cons.IH [OF this] show ?case using sn by auto
qed

lemma object_pass:
  fixes F :: "string \<times> string \<Rightarrow> scan \<Rightarrow> scan" and G :: "S3ObjectDetail \<Rightarrow> scan \<Rightarrow> scan"
  assumes seen: "\<And>f s. scan_ok s \<Longrightarrow>
            seenKeys (F f s) = insert (fst f) (seenKeys s)
            \<and> seenFolders (F f s) = insert (fst f) (seenFolders s) \<and> scan_ok (F f s)"
    and other: "\<And>f s k. k \<noteq> fst f \<Longrightarrow> getObject (db (F f s)) k = getObject (db s) k"
    and folder: "\<And>f s. (fst f \<in> seenFolders s \<longrightarrow> clean_folder (db s) (fst f))
            \<Longrightarrow> clean_folder (db (F f s)) (fst f)"
    and seen': "\<And>obj s. scan_ok s \<Longrightarrow>
            seenKeys (G obj s) = insert (obj_key obj) (seenKeys s)
            \<and> seenFolders (G obj s) = seenFolders s \<and> scan_ok (G obj s)"
    and other': "\<And>obj s k. k \<noteq> obj_key obj \<Longrightarrow> getObject (db (G obj s)) k = getObject (db s) k"
    and ok: "folders_ok s"
    and key: "obj_key obj \<notin> seenFolders s \<union> set (folder_keys (obj_key obj))"
  shows "folders_ok (G obj (fold F (folderPrefixesForKey (obj_key obj)) s))
    \<and> seenFolders (G obj (fold F (folderPrefixesForKey (obj_key obj)) s))
        = seenFolders s \<union> set (folder_keys (obj_key obj))"
proof -
  let ?s1 = "fold F (folderPrefixesForKey (obj_key obj)) s"
  note p = folders_pass [of F, OF seen other folder ok, of "folderPrefixesForKey (obj_key obj)"]
  have ok1: "folders_ok ?s1" and sf1: "seenFolders ?s1 = seenFolders s \<union> set (folder_keys (obj_key obj))"
    using p by (simp_all add: folder_keys_def)
  have sk1: "scan_ok ?s1" using ok1 by (simp add: folders_ok_def)
  note sn = seen' [OF sk1, of obj]
  have notin: "obj_key obj \<notin> seenFolders ?s1" using key sf1 by simp
  have keep: "clean_folder (db (G obj ?s1)) k" if "k \<in> seenFolders ?s1" for k
  proof -
    have "k \<noteq> obj_key obj" using that notin by auto
    then show ?thesis
      using that ok1 other' [of k obj ?s1] by (simp add: folders_ok_def clean_folder_def)
  qed
  have files: "set (folder_keys k) \<subseteq> seenFolders ?s1"
    if "k \<in> seenKeys (G obj ?s1)" "is_file (db (G obj ?s1)) k" for k
  proof (cases "k = obj_key obj")
    case True
    then show ?thesis using sf1 by simp
  next
    case False
    then have "k \<in> seenKeys ?s1" "is_file (db ?s1) k"
      using that sn other' [of k obj ?s1] by (simp_all add: is_file_def)
    then show ?thesis using ok1 by (auto simp: folders_ok_def)
  qed
  have "folders_ok (G obj ?s1)"
    unfolding folders_ok_def using sn keep files by auto
  then show ?thesis using sn sf1 by simp
qed

lemma scan_pass:
  fixes F :: "string \<times> string \<Rightarrow> scan \<Rightarrow> scan" and G :: "S3ObjectDetail \<Rightarrow> scan \<Rightarrow> scan"
  assumes seen: "\<And>f s. scan_ok s \<Longrightarrow>
            seenKeys (F f s) = insert (fst f) (seenKeys s)
            \<and> seenFolders (F f s) = insert (fst f) (seenFolders s) \<and> scan_ok (F f s)"
    and other: "\<And>f s k. k \<noteq> fst f \<Longrightarrow> getObject (db (F f s)) k = getObject (db s) k"
    and folder: "\<And>f s. (fst f \<in> seenFolders s \<longrightarrow> clean_folder (db s) (fst f))
            \<Longrightarrow> clean_folder (db (F f s)) (fst f)"
    and seen': "\<And>obj s. scan_ok s \<Longrightarrow>
            seenKeys (G obj s) = insert (obj_key obj) (seenKeys s)
            \<and> seenFolders (G obj s) = seenFolders s \<and> scan_ok (G obj s)"
    and other': "\<And>obj s k. k \<noteq> obj_key obj \<Longrightarrow> getObject (db (G obj s)) k = getObject (db s) k"
    and ok: "folders_ok s"
    and first: "markers_first (seenFolders s) objs"
  shows "folders_ok (fold (\<lambda>obj s. G obj (fold F (folderPrefixesForKey (obj_key obj)) s)) objs s)"
  using ok first
proof (induction objs arbitrary: s)
  case Nil
  then show ?case by simp
next
  case (Cons obj objs)
  have key: "obj_key obj \<notin> seenFolders s \<union> set (folder_keys (obj_key obj))"
    using Cons.prems(2) by simp
  note p = object_pass [of F G, OF seen other folder seen' other' Cons.prems(1) key]
  show ?case
    using Cons.IH [of "G obj (fold F (folderPrefixesForKey (obj_key obj)) s)"] p Cons.prems(2)
    by simp
qed

lemma clean_folder_upsert_folder [simp]: "clean_folder (upsertObject k (folder_row n t) w) k"
  by (simp add: clean_folder_def folder_row_def)

lemma refresh_folder_clean_folder:
  assumes "fst f \<in> seenFolders s \<longrightarrow> clean_folder (db s) (fst f)"
  shows "clean_folder (db (refresh_folder f s)) (fst f)"
proof (cases "fst f \<in> seenFolders s")
  case True
  then show ?thesis using assms by (simp add: refresh_folder_def)
next
  case False
  then show ?thesis
    by (cases "getObject (db s) (fst f)")
      (auto simp: refresh_folder_def Let_def split_beta clean_folder_def folder_row_def)
qed

lemma refresh_object_passes:
  "refresh_object = (\<lambda>obj s. refresh_file obj (fold refresh_folder (folderPrefixesForKey (obj_key obj)) s))"
  by (simp add: refresh_object_def Let_def fun_eq_iff)

lemma folders_ok_new_scan [simp]: "folders_ok (new_scan w)"
  by (simp add: folders_ok_def) (simp add: new_scan_def)

lemma refresh_scan_folders_ok:
  assumes "markers_first {} objs"
  shows "folders_ok (fold refresh_object objs (new_scan w))"
  unfolding refresh_object_passes
proof (rule scan_pass)
  show "markers_first (seenFolders (new_scan w)) objs"
    using assms by (simp add: new_scan_def)
qed (simp_all add: refresh_folder_seen refresh_folder_other refresh_folder_clean_folder
    refresh_file_seen refresh_file_other)

subsection \<open>The rebuild scan\<close>

lemma rebuild_folder_seen:
  assumes "scan_ok s"
  shows "seenKeys (rebuild_folder f s) = insert (fst f) (seenKeys s)
    \<and> seenFolders (rebuild_folder f s) = insert (fst f) (seenFolders s)
    \<and> scan_ok (rebuild_folder f s)"
  using assms by (auto simp: rebuild_folder_def scan_ok_def Let_def split_beta)

lemma rebuild_folder_other:
  "k \<noteq> fst f \<Longrightarrow> getObject (db (rebuild_folder f s)) k = getObject (db s) k"
  by (simp add: rebuild_folder_def Let_def split_beta)

lemma rebuild_folder_clean_folder:
  assumes "fst f \<in> seenFolders s \<longrightarrow> clean_folder (db s) (fst f)"
  shows "clean_folder (db (rebuild_folder f s)) (fst f)"
  using assms by (simp add: rebuild_folder_def Let_def split_beta)

lemma rebuild_file_seen:
  assumes "scan_ok s"
  shows "seenKeys (rebuild_file obj s) = insert (obj_key obj) (seenKeys s)
    \<and> seenFolders (rebuild_file obj s) = seenFolders s
    \<and> scan_ok (rebuild_file obj s)"
  using assms by (auto simp: rebuild_file_def scan_ok_def Let_def split_beta)

lemma rebuild_file_other:
  "k \<noteq> obj_key obj \<Longrightarrow> getObject (db (rebuild_file obj s)) k = getObject (db s) k"
  by (simp add: rebuild_file_def Let_def split_beta)

lemma rebuild_object_passes:
  "rebuild_object = (\<lambda>obj s. rebuild_file obj (fold rebuild_folder (folderPrefixesForKey (obj_key obj)) s))"
  by (simp add: rebuild_object_def Let_def fun_eq_iff)

lemma rebuild_scan_folders_ok:
  assumes "markers_first {} objs"
  shows "folders_ok (fold rebuild_object objs (new_scan w))"
  unfolding rebuild_object_passes
proof (rule scan_pass)
  show "markers_first (seenFolders (new_scan w)) objs"
    using assms by (simp add: new_scan_def)
qed (simp_all add: rebuild_folder_seen rebuild_folder_other rebuild_folder_clean_folder
    rebuild_file_seen rebuild_file_other)

lemma rebuild_scan_keys_seen:
  "keys (db (fold rebuild_object objs (new_scan (w\<lparr>object_index := []\<rparr>))))
     \<subseteq> seenKeys (fold rebuild_object objs (new_scan (w\<lparr>object_index := []\<rparr>)))"
proof -
  let ?P = "\<lambda>s. keys (db s) \<subseteq> seenKeys s"
  have step_folder: "?P (rebuild_folder f s)" if "?P s" for f s
    using that by (auto simp: rebuild_folder_def Let_def split_beta)
  have step_file: "?P (rebuild_file x s)" if "?P s" for x s
    using that by (auto simp: rebuild_file_def Let_def split_beta)
  have step_object: "?P (rebuild_object x s)" if "?P s" for x s
    unfolding rebuild_object_def Let_def
    by (rule step_file, rule fold_invariant [where P = ?P]) (simp_all add: that step_folder)
  have "?P (new_scan (w\<lparr>object_index := []\<rparr>))"
    by (simp add: keys_def new_scan_def)
  then show ?thesis
    by (rule fold_invariant [where P = ?P]) (rule step_object)
qed


subsection \<open>Ancestor folders and prefixes\<close>

lemma split_no_separator: "c \<notin> set s \<Longrightarrow> split c s = [s]"
  by (induction s) auto

lemma split_at_first: "c \<notin> set s \<Longrightarrow> split c (s @ c # t) = s # split c t"
  by (induction s) auto

lemma split_not_Nil [simp]: "split c s \<noteq> []"
  by (induction s) (auto split: list.splits)

lemma split_single_empty: "split c s = [[]] \<Longrightarrow> s = []"
  by (cases s) (auto split: if_splits list.splits)

lemma prefixes_loop_keys:
  "map fst (prefixes_loop acc xs) = map ((@) acc) (map fst (prefixes_loop [] xs))"
proof (induction xs arbitrary: acc)
  case Nil
  then show ?case by simp
next
  case (Cons x xs)
  show ?case
  proof (cases "x = []")
    case True
    then show ?thesis using Cons.IH [of acc] by simp
  next
    case False
    have 1: "map fst (prefixes_loop (acc @ x @ ''/'') xs)
              = map ((@) (acc @ x @ ''/'')) (map fst (prefixes_loop [] xs))"
      by (rule Cons.IH)
    have 2: "map fst (prefixes_loop (x @ ''/'') xs)
              = map ((@) (x @ ''/'')) (map fst (prefixes_loop [] xs))"
      by (rule Cons.IH)
    have "map fst (prefixes_loop acc (x # xs))
            = (acc @ x @ ''/'') # map fst (prefixes_loop (acc @ x @ ''/'') xs)"
      using False by simp
    moreover have "map fst (prefixes_loop [] (x # xs))
            = (x @ ''/'') # map fst (prefixes_loop (x @ ''/'') xs)"
      using False by simp
    ultimately show ?thesis unfolding 1 2 by simp
  qed
qed

lemma last_in_subset:
  assumes "set p \<subseteq> A" and "c \<notin> A" and "p \<noteq> []"
  shows "last p \<noteq> c"
proof -
  have "last p \<in> set p" using assms(3) by simp
  then show ?thesis using assms(1,2) by auto
qed

lemma slash_prefixes_Nil [simp]: "slash_prefixes [] = []"
  by (simp add: slash_prefixes_def)

lemma prefixes_loop_ends:
  "p \<in> fst ` set (prefixes_loop acc xs) \<Longrightarrow> p \<noteq> [] \<and> last p = CHR ''/''"
  by (induction xs arbitrary: acc) (auto split: if_splits)

lemma folder_keys_end: "p \<in> set (folder_keys k) \<Longrightarrow> p \<noteq> [] \<and> last p = CHR ''/''"
  using prefixes_loop_ends [of p "[]" "butlast (segments k)"]
  by (simp add: folder_keys_def folderPrefixesForKey_def)

lemma folder_keys_root: "CHR ''/'' \<notin> set k \<Longrightarrow> folder_keys k = []"
  by (simp add: folder_keys_def folderPrefixesForKey_def segments_def split_no_separator)

lemma slash_prefixes_root:
  assumes "CHR ''/'' \<notin> set k"
  shows "slash_prefixes k = []"
proof -
  have "\<not> (p \<noteq> [] \<and> last p = CHR ''/'' \<and> p \<noteq> k)" if "p \<in> set (prefixes k)" for p
  proof -
    have "set p \<subseteq> set k" using that by (auto simp: in_set_prefixes dest: set_mono_prefix)
    then show ?thesis using assms last_in_subset [of p "set k" "CHR ''/''"] by blast
  qed
  then show ?thesis by (simp add: slash_prefixes_def filter_empty_conv)
qed

lemma folder_keys_step:
  assumes "CHR ''/'' \<notin> set s" and "s \<noteq> []" and "[] \<notin> set (butlast (split CHR ''/'' t))"
  shows "folder_keys (s @ CHR ''/'' # t)
           = (if t = [] then [] else (s @ ''/'') # map ((@) (s @ ''/'')) (folder_keys t))"
proof (cases "t = []")
  case True
  then show ?thesis
    using assms(1,2)
    by (simp add: folder_keys_def folderPrefixesForKey_def segments_def split_at_first)
next
  case False
  have "segments t \<noteq> []"
  proof
    assume e: "segments t = []"
    then have all: "\<forall>x \<in> set (split CHR ''/'' t). x = []"
      by (auto simp: segments_def filter_empty_conv)
    have "butlast (split CHR ''/'' t) = []"
    proof (rule ccontr)
      assume "butlast (split CHR ''/'' t) \<noteq> []"
      then obtain x where x: "x \<in> set (butlast (split CHR ''/'' t))"
        by (meson last_in_set)
      then have "x = []" using all in_set_butlastD by fastforce
      then show False using x assms(3) by simp
    qed
    then have "split CHR ''/'' t = [last (split CHR ''/'' t)]"
      by (metis append_butlast_last_id append_Nil split_not_Nil)
    then have "split CHR ''/'' t = [[]]" using all by (metis list.set_intros(1))
    then show False using False split_single_empty by blast
  qed
  then have "butlast (s # segments t) = s # butlast (segments t)" by simp
  then have "folder_keys (s @ CHR ''/'' # t)
       = map fst (prefixes_loop [] (s # butlast (segments t)))"
    using assms(1,2)
    by (simp add: folder_keys_def folderPrefixesForKey_def segments_def split_at_first)
  also have "\<dots> = (s @ ''/'') # map fst (prefixes_loop (s @ ''/'') (butlast (segments t)))"
    using assms(2) by simp
  also have "\<dots> = (s @ ''/'') # map ((@) (s @ ''/'')) (folder_keys t)"
    by (subst prefixes_loop_keys) (simp add: folder_keys_def folderPrefixesForKey_def)
  finally show ?thesis using False by simp
qed

lemma slash_prefixes_step:
  assumes "CHR ''/'' \<notin> set s"
  shows "slash_prefixes (s @ CHR ''/'' # t)
           = (if t = [] then [] else [s @ ''/'']) @ map ((@) (s @ ''/'')) (slash_prefixes t)"
proof -
  let ?k = "s @ CHR ''/'' # t"
  let ?P = "\<lambda>p. p \<noteq> [] \<and> last p = CHR ''/'' \<and> p \<noteq> ?k"
  have pre: "prefixes ?k = prefixes s @ map ((@) (s @ ''/'')) (prefixes t)"
    by (simp add: prefixes_append [of s] comp_def)
  have "\<not> ?P p" if "p \<in> set (prefixes s)" for p
  proof -
    have "set p \<subseteq> set s" using that by (auto simp: in_set_prefixes dest: set_mono_prefix)
    then show ?thesis using assms last_in_subset [of p "set s" "CHR ''/''"] by blast
  qed
  then have a: "filter ?P (prefixes s) = []" by (simp add: filter_empty_conv)
  have b: "filter ?P (map ((@) (s @ ''/'')) (prefixes t))
        = map ((@) (s @ ''/'')) (filter (\<lambda>q. (q = [] \<or> last q = CHR ''/'') \<and> q \<noteq> t) (prefixes t))"
  proof -
    have "filter (?P \<circ> (@) (s @ ''/'')) (prefixes t)
          = filter (\<lambda>q. (q = [] \<or> last q = CHR ''/'') \<and> q \<noteq> t) (prefixes t)"
      by (rule filter_cong) auto
    then show ?thesis by (simp only: filter_map)
  qed
  have c: "filter (\<lambda>q. (q = [] \<or> last q = CHR ''/'') \<and> q \<noteq> t) (prefixes t)
        = (if t = [] then [] else [[]]) @ slash_prefixes t"
    by (cases t) (auto simp: slash_prefixes_def filter_map comp_def intro: filter_cong)
  show ?thesis
    unfolding slash_prefixes_def [of ?k] pre by (simp add: a b c)
qed

lemma folder_keys_slash_prefixes:
  "[] \<notin> set (butlast (split CHR ''/'' k)) \<Longrightarrow> folder_keys k = slash_prefixes k"
proof (induction k rule: length_induct)
  case (1 k)
  show ?case
  proof (cases "CHR ''/'' \<in> set k")
    case False
    then show ?thesis by (simp add: folder_keys_root slash_prefixes_root)
  next
    case True
    then obtain s t where k: "k = s @ CHR ''/'' # t" "CHR ''/'' \<notin> set s"
      by (meson split_list_first)
    have sp: "split CHR ''/'' k = s # split CHR ''/'' t"
      using k by (simp add: split_at_first)
    then have "butlast (split CHR ''/'' k) = s # butlast (split CHR ''/'' t)" by simp
    then have s: "s \<noteq> []" and t: "[] \<notin> set (butlast (split CHR ''/'' t))"
      using "1.prems" by auto
    have "length t < length k" using k(1) by simp
    then have ih: "folder_keys t = slash_prefixes t"
      using "1.IH" t by blast
    show ?thesis
      unfolding k(1) folder_keys_step [OF k(2) s t] slash_prefixes_step [OF k(2)]
      by (simp add: ih)
  qed
qed

subsection \<open>After a completed scan\<close>

lemma rebuildIndex_table:
  assumes "ending replies = Done"
  shows "object_index (snd (rebuildIndex replies w))
           = object_index (db (fold rebuild_object (listed [] replies)
                                 (new_scan (w\<lparr>object_index := []\<rparr>))))"
  using assms
  by (simp add: rebuildIndex_def walkAllObjects_fold Let_def split_beta)

lemma rebuild_ancestors:
  assumes mf: "markers_first {} (listed [] replies)"
    and dn: "ending replies = Done"
    and fl: "is_file (snd (rebuildIndex replies w)) k"
    and pk: "p \<in> set (folder_keys k)"
  shows "is_folder (snd (rebuildIndex replies w)) p"
proof -
  let ?s = "fold rebuild_object (listed [] replies) (new_scan (w\<lparr>object_index := []\<rparr>))"
  have get: "getObject (snd (rebuildIndex replies w)) x = getObject (db ?s) x" for x
    using rebuildIndex_table [OF dn, of w] by (simp add: getObject_def)
  have ok: "folders_ok ?s"
    using mf by (rule rebuild_scan_folders_ok)
  have f: "is_file (db ?s) k"
    using fl get by (simp add: is_file_def)
  then have "k \<in> keys (db ?s)"
    using getObject_None_iff [of "db ?s" k] by (auto simp: is_file_def split: option.splits)
  then have "k \<in> seenKeys ?s"
    using rebuild_scan_keys_seen [of "listed [] replies" w] by auto
  then have "p \<in> seenFolders ?s"
    using ok f pk by (auto simp: folders_ok_def)
  then have "is_folder (db ?s) p"
    using ok by (simp add: folders_ok_def clean_folder_is_folder)
  then show ?thesis using get by (simp add: is_folder_def)
qed

lemma refresh_ancestors:
  assumes mf: "markers_first {} (listed [] replies)"
    and dn: "ending replies = Done"
    and fl: "is_file (snd (refreshIndex replies w)) k"
    and pk: "p \<in> set (folder_keys k)"
  shows "is_folder (snd (refreshIndex replies w)) p"
proof -
  let ?s = "fold refresh_object (listed [] replies) (new_scan w)"
  have get: "getObject (snd (refreshIndex replies w)) x
               = (if x \<in> seenKeys ?s then getObject (db ?s) x else None)" for x
    using refreshIndex_Done(2) [OF dn, of w]
    by (simp add: getObject_def sweep_table map_of_filter_keys)
  have ok: "folders_ok ?s"
    using mf by (rule refresh_scan_folders_ok)
  have k: "k \<in> seenKeys ?s" and f: "is_file (db ?s) k"
    using fl get [of k] by (auto simp: is_file_def split: if_splits)
  then have pf: "p \<in> seenFolders ?s"
    using ok pk by (auto simp: folders_ok_def)
  then have "is_folder (db ?s) p" and "p \<in> seenKeys ?s"
    using ok by (auto simp: folders_ok_def scan_ok_def clean_folder_is_folder)
  then show ?thesis using get [of p] by (simp add: is_folder_def)
qed

text \<open>
  Claim C2, amended. The engine derives the ancestor folders of a key from its non-empty
  segments: they are the proper prefixes of the key that end in \<open>/\<close> when no segment
  before the last is empty, and there is none for a key without \<open>/\<close>. After a
  completed rebuild or refresh over a listing in which no key is listed after an object
  that it is an ancestor folder of, every ancestor folder of every stored file is stored
  as a folder, under a key that ends in \<open>/\<close>.
\<close>

theorem ancestors_stored_as_folders:
  assumes "markers_first {} (listed [] replies)"
  shows "(fst (rebuildIndex replies w) = Resolved r \<longrightarrow>
           (\<forall>k p. is_file (snd (rebuildIndex replies w)) k \<and> p \<in> set (folder_keys k)
              \<longrightarrow> is_folder (snd (rebuildIndex replies w)) p \<and> p \<noteq> [] \<and> last p = CHR ''/''))
    \<and> (fst (refreshIndex replies w) = Resolved r' \<longrightarrow>
           (\<forall>k p. is_file (snd (refreshIndex replies w)) k \<and> p \<in> set (folder_keys k)
              \<longrightarrow> is_folder (snd (refreshIndex replies w)) p \<and> p \<noteq> [] \<and> last p = CHR ''/''))
    \<and> (\<forall>k. [] \<notin> set (butlast (split CHR ''/'' k)) \<longrightarrow> folder_keys k = slash_prefixes k)
    \<and> (\<forall>k. CHR ''/'' \<notin> set k \<longrightarrow> folder_keys k = [])"
proof (intro conjI impI allI)
  fix k p
  assume "fst (rebuildIndex replies w) = Resolved r"
    and "is_file (snd (rebuildIndex replies w)) k \<and> p \<in> set (folder_keys k)"
  then show "is_folder (snd (rebuildIndex replies w)) p"
    using rebuild_ancestors [OF assms rebuildIndex_Resolved] by blast
next
  fix k p
  assume "fst (refreshIndex replies w) = Resolved r'"
    and "is_file (snd (refreshIndex replies w)) k \<and> p \<in> set (folder_keys k)"
  then show "is_folder (snd (refreshIndex replies w)) p"
    using refresh_ancestors [OF assms refreshIndex_Resolved] by blast
qed (auto dest: folder_keys_end simp: folder_keys_slash_prefixes folder_keys_root)

lemma folders_example:
  "markers_first {} (listed []
     [page0 [item0 ''docs/readme.txt'' 10, item0 ''docs/img/logo.png'' 20] None])"
  "fst (rebuildIndex [page0 [item0 ''docs/readme.txt'' 10, item0 ''docs/img/logo.png'' 20] None]
         (world0 [])) = Resolved \<lparr>sum_indexed = 2, sum_folders = 2\<rparr>"
  "is_file (snd (rebuildIndex
      [page0 [item0 ''docs/readme.txt'' 10, item0 ''docs/img/logo.png'' 20] None] (world0 [])))
     ''docs/img/logo.png''"
  "folder_keys ''docs/img/logo.png'' = [''docs/'', ''docs/img/'']"
  by code_simp+

theorem ancestors_stored_as_folders_witness:
  "is_folder (snd (rebuildIndex
      [page0 [item0 ''docs/readme.txt'' 10, item0 ''docs/img/logo.png'' 20] None] (world0 [])))
     ''docs/img/''"
proof -
  note t = ancestors_stored_as_folders [OF folders_example(1), of "world0 []"
      "\<lparr>sum_indexed = 2, sum_folders = 2\<rparr>"
      "\<lparr>sum_added = 0, sum_updated = 0, sum_removed = 0, sum_files = 0, sum_folders' = 0\<rparr>"]
  have "is_file (snd (rebuildIndex
      [page0 [item0 ''docs/readme.txt'' 10, item0 ''docs/img/logo.png'' 20] None] (world0 [])))
     ''docs/img/logo.png'' \<and> ''docs/img/'' \<in> set (folder_keys ''docs/img/logo.png'')"
    using folders_example(3) by (simp add: folders_example(4))
  with t folders_example(2) show ?thesis by blast
qed

text \<open>
  The claim as worded fails on a key with an empty segment: \<open>a//\<close> is a prefix of
  \<open>a//b\<close> that ends in the separator, and a rebuild stores the folder \<open>a/\<close> only.
\<close>

theorem empty_segment_counterexample:
  "fst (rebuildIndex [page0 [item0 ''a//b'' 3] None] (world0 []))
     = Resolved \<lparr>sum_indexed = 1, sum_folders = 1\<rparr>
   \<and> is_file (snd (rebuildIndex [page0 [item0 ''a//b'' 3] None] (world0 []))) ''a//b''
   \<and> ''a//'' \<in> set (slash_prefixes ''a//b'')
   \<and> getObject (snd (rebuildIndex [page0 [item0 ''a//b'' 3] None] (world0 []))) ''a//'' = None
   \<and> map fst (object_index (snd (rebuildIndex [page0 [item0 ''a//b'' 3] None] (world0 []))))
       = [''a/'', ''a//b'']"
  by code_simp

section \<open>Two runs over the same listing\<close>

lemma refreshIndex_getObject:
  assumes "ending replies = Done"
  shows "getObject (snd (refreshIndex replies w)) k
           = (if k \<in> seenKeys (fold refresh_object (listed [] replies) (new_scan w))
              then getObject (db (fold refresh_object (listed [] replies) (new_scan w))) k
              else None)"
  using refreshIndex_Done(2) [OF assms, of w]
  by (simp add: getObject_def sweep_table map_of_filter_keys)

lemma row_matches_file_row [simp]: "row_matches (file_row unicode obj t) obj"
  by (simp add: row_matches_def file_row_def)

lemma refresh_file_result:
  "\<exists>e. getObject (db (refresh_file obj s)) (obj_key obj) = Some e \<and> row_matches e obj"
proof (cases "getObject (db s) (obj_key obj)")
  case None
  then show ?thesis by (simp add: refresh_file_def Let_def split_beta)
next
  case (Some e)
  show ?thesis
  proof (cases "row_matches e obj")
    case True
    then show ?thesis using Some refresh_file_matching [OF Some True] by (simp add: getObject_def)
  next
    case False
    then show ?thesis
      using Some by (auto simp: refresh_file_def Let_def split_beta row_matches_def file_row_def)
  qed
qed

lemma refresh_scan_matches:
  assumes "distinct (map obj_key objs)" and "no_markers objs"
  shows "\<forall>obj \<in> set objs.
           \<exists>e. getObject (db (fold refresh_object objs s)) (obj_key obj) = Some e
                \<and> row_matches e obj"
  using assms
proof (induction objs arbitrary: s)
  case Nil
  then show ?case by simp
next
  case (Cons x xs)
  have d: "distinct (map obj_key xs)" and nm: "no_markers xs"
    using Cons.prems by (auto simp: no_markers_def)
  obtain e where e: "getObject (db (refresh_object x s)) (obj_key x) = Some e" "row_matches e x"
    using refresh_file_result [of x] by (auto simp: refresh_object_def Let_def)
  have "getObject (db (fold refresh_object xs (refresh_object x s))) (obj_key x) = Some e"
  proof (rule refresh_scan_keeps_matching [OF e(1)])
    show "\<forall>obj \<in> set xs. obj_key x \<notin> set (folder_keys (obj_key obj))"
      using Cons.prems(2) by (auto simp: no_markers_def)
    show "\<forall>obj \<in> set xs. obj_key obj = obj_key x \<longrightarrow> row_matches e obj"
      using Cons.prems(1) by (auto simp: image_iff)
  qed
  then show ?case
    using e(2) Cons.IH [OF d nm, of "refresh_object x s"] by auto
qed

lemma no_markers_first:
  assumes "\<forall>obj \<in> set objs. obj_key obj \<notin> A"
    and "\<forall>obj \<in> set objs. set (folder_keys (obj_key obj)) \<subseteq> A" and "seen \<subseteq> A"
  shows "markers_first seen objs"
  using assms by (induction objs arbitrary: seen) auto

lemma no_markers_markers_first: "no_markers objs \<Longrightarrow> markers_first {} objs"
  by (rule no_markers_first [where A = "\<Union>obj \<in> set objs. set (folder_keys (obj_key obj))"])
    (auto simp: no_markers_def)

lemma refresh_folder_clean:
  assumes "clean_folder (db s) (fst f)"
  shows "db (refresh_folder f s) = db s \<and> added (refresh_folder f s) = added s
    \<and> updated (refresh_folder f s) = updated s"
  using assms
  by (auto simp: refresh_folder_def clean_folder_def Let_def split: option.splits)

lemma refresh_folders_clean:
  assumes "\<forall>f \<in> set fs. clean_folder (db s) (fst f)"
  shows "db (fold refresh_folder fs s) = db s \<and> added (fold refresh_folder fs s) = added s
    \<and> updated (fold refresh_folder fs s) = updated s"
  using assms
proof (induction fs arbitrary: s)
  case Nil
  then show ?case by simp
next
  case (Cons f fs)
  have 1: "db (refresh_folder f s) = db s \<and> added (refresh_folder f s) = added s
    \<and> updated (refresh_folder f s) = updated s"
    using Cons.prems by (intro refresh_folder_clean) simp
  then have "\<forall>g \<in> set fs. clean_folder (db (refresh_folder f s)) (fst g)"
    using Cons.prems by simp
  from Cons.IH [OF this] show ?case using 1 by simp
qed

text \<open>A scan over objects whose rows and folders are all in order writes nothing.\<close>

lemma refresh_scan_settled:
  assumes "\<forall>obj \<in> set objs.
             (\<exists>e. getObject (db s) (obj_key obj) = Some e \<and> row_matches e obj)
             \<and> (\<forall>p \<in> set (folder_keys (obj_key obj)). clean_folder (db s) p)"
  shows "db (fold refresh_object objs s) = db s \<and> added (fold refresh_object objs s) = added s
    \<and> updated (fold refresh_object objs s) = updated s"
  using assms
proof (induction objs arbitrary: s)
  case Nil
  then show ?case by simp
next
  case (Cons x xs)
  let ?s1 = "fold refresh_folder (folderPrefixesForKey (obj_key x)) s"
  have 1: "db ?s1 = db s \<and> added ?s1 = added s \<and> updated ?s1 = updated s"
    using Cons.prems by (intro refresh_folders_clean) (simp add: folder_keys_def)
  obtain e where e: "getObject (db ?s1) (obj_key x) = Some e" "row_matches e x"
    using Cons.prems 1 by auto
  have 2: "db (refresh_object x s) = db s \<and> added (refresh_object x s) = added s
    \<and> updated (refresh_object x s) = updated s"
    using refresh_file_matching [OF e] 1 by (simp add: refresh_object_def Let_def)
  then have "\<forall>obj \<in> set xs.
             (\<exists>e. getObject (db (refresh_object x s)) (obj_key obj) = Some e \<and> row_matches e obj)
             \<and> (\<forall>p \<in> set (folder_keys (obj_key obj)). clean_folder (db (refresh_object x s)) p)"
    using Cons.prems by simp
  from Cons.IH [OF this] show ?case using 2 by simp
qed

text \<open>
  Without folder markers the refresh is idempotent: when the listing has distinct keys,
  none of which is the key of an ancestor folder of a listed object, a second run over
  the same listing adds, updates and removes nothing.
\<close>

lemma refresh_twice_without_markers:
  assumes dn: "ending replies = Done"
    and dist: "distinct (map obj_key (listed [] replies))"
    and nm: "no_markers (listed [] replies)"
  shows "\<exists>r. fst (refreshIndex replies (snd (refreshIndex replies w))) = Resolved r
            \<and> sum_added r = 0 \<and> sum_updated r = 0 \<and> sum_removed r = 0"
proof -
  let ?objs = "listed [] replies"
  let ?s = "fold refresh_object ?objs (new_scan w)"
  let ?w1 = "snd (refreshIndex replies w)"
  let ?s2 = "fold refresh_object ?objs (new_scan ?w1)"
  have seen: "seenKeys ?s = observed_keys ?objs" and sk: "scan_ok ?s"
    using refresh_scan_seen [of "new_scan w" ?objs] by simp_all
  have ok: "folders_ok ?s"
    using no_markers_markers_first [OF nm] by (rule refresh_scan_folders_ok)
  note get = refreshIndex_getObject [OF dn, of w]
  have rows: "\<exists>e. getObject (db ?s) (obj_key obj) = Some e \<and> row_matches e obj"
    if "obj \<in> set ?objs" for obj
    using refresh_scan_matches [OF dist nm, of "new_scan w"] that by blast
  have inseen: "obj_key obj \<in> seenKeys ?s" if "obj \<in> set ?objs" for obj
    using that seen by (auto simp: observed_keys_def)
  have settled: "\<forall>obj \<in> set ?objs.
             (\<exists>e. getObject (db (new_scan ?w1)) (obj_key obj) = Some e \<and> row_matches e obj)
             \<and> (\<forall>p \<in> set (folder_keys (obj_key obj)). clean_folder (db (new_scan ?w1)) p)"
  proof (intro ballI conjI)
    fix obj assume o: "obj \<in> set ?objs"
    show "\<exists>e. getObject (db (new_scan ?w1)) (obj_key obj) = Some e \<and> row_matches e obj"
      using rows [OF o] inseen [OF o] get by simp
    fix p assume p: "p \<in> set (folder_keys (obj_key obj))"
    have "is_file (db ?s) (obj_key obj)"
      using rows [OF o] by (auto simp: is_file_def row_matches_def)
    then have "p \<in> seenFolders ?s"
      using ok inseen [OF o] p by (auto simp: folders_ok_def)
    then have "clean_folder (db ?s) p" and "p \<in> seenKeys ?s"
      using ok by (auto simp: folders_ok_def scan_ok_def)
    then show "clean_folder (db (new_scan ?w1)) p"
      using get by (simp add: clean_folder_def)
  qed
  note quiet = refresh_scan_settled [OF settled]
  have seen2: "seenKeys ?s2 = observed_keys ?objs"
    using refresh_scan_seen [of "new_scan ?w1" ?objs] by simp
  have "keys ?w1 = keys (db ?s) \<inter> seenKeys ?s"
    using refreshIndex_Done(2) [OF dn, of w] sweep_keys [of "seenKeys ?s" "db ?s"]
    by (simp add: keys_def)
  then have k1: "keys ?w1 \<subseteq> observed_keys ?objs"
    using seen by auto
  have "filter (\<lambda>k. k \<notin> seenKeys ?s2) (map fst (object_index (db ?s2))) = []"
    using k1 quiet seen2 by (auto simp: filter_empty_conv keys_def new_scan_def)
  then have "snd (sweep (seenKeys ?s2) (db ?s2)) = 0"
    by (simp add: sweep_removed)
  moreover have "added ?s2 = 0" "updated ?s2 = 0"
    using quiet by (simp_all add: new_scan_def)
  ultimately show ?thesis
    using refreshIndex_Done(1) [OF dn, of ?w1] by auto
qed

section \<open>A row that matches its object\<close>

text \<open>
  Claim C8, amended. A stored row that matches the listed object of its key on type,
  size, modification time and checksum tag (an absent modification time or tag of the
  object compared as \<open>NULL\<close>), under a key that is not the key of an ancestor folder
  of a listed object, is not written by \<open>refreshIndex\<close>: however the run ends, the row
  is there afterwards with every field, \<open>updated_at\<close> included, as it was, and where
  the callback comes to the object it only marks the key as seen, without a write and
  without counting it as added or updated.
\<close>

theorem refresh_keeps_matching_row:
  assumes e: "getObject w k = Some e"
    and nf: "\<forall>obj \<in> set (listed [] replies). k \<notin> set (folder_keys (obj_key obj))"
    and mt: "\<forall>obj \<in> set (listed [] replies). obj_key obj = k \<longrightarrow> row_matches e obj"
    and ob: "\<exists>obj \<in> set (listed [] replies). obj_key obj = k"
  shows "getObject (snd (refreshIndex replies w)) k = Some e
    \<and> (\<forall>pre obj post. listed [] replies = pre @ obj # post \<and> obj_key obj = k \<longrightarrow>
          (let s = fold refresh_folder (folderPrefixesForKey k)
                     (fold refresh_object pre (new_scan w))
           in refresh_file obj s = s\<lparr>seenKeys := insert k (seenKeys s)\<rparr>))"
proof (intro conjI allI impI)
  let ?objs = "listed [] replies"
  let ?s = "fold refresh_object ?objs (new_scan w)"
  have kept: "getObject (db ?s) k = Some e"
    using e nf mt by (intro refresh_scan_keeps_matching) simp_all
  have "seenKeys ?s = observed_keys ?objs"
    using refresh_scan_seen [of "new_scan w" ?objs] by simp
  then have seen: "k \<in> seenKeys ?s"
    using ob by (auto simp: observed_keys_def)
  show "getObject (snd (refreshIndex replies w)) k = Some e"
  proof (cases "ending replies")
    case Done
    then show ?thesis using refreshIndex_getObject [OF Done, of w k] kept seen by simp
  next
    case (Thrown err)
    then show ?thesis using kept by (simp add: refreshIndex_def walkAllObjects_fold)
  next
    case Waiting
    then show ?thesis using kept by (simp add: refreshIndex_def walkAllObjects_fold)
  qed
next
  fix pre obj post
  assume sp: "listed [] replies = pre @ obj # post \<and> obj_key obj = k"
  let ?p = "fold refresh_object pre (new_scan w)"
  let ?s = "fold refresh_folder (folderPrefixesForKey k) ?p"
  have "getObject (db ?p) k = Some e"
    using e nf mt sp by (intro refresh_scan_keeps_matching) simp_all
  moreover have "k \<notin> fst ` set (folderPrefixesForKey k)"
    using nf sp by (auto simp: folder_keys_def)
  ultimately have "getObject (db ?s) (obj_key obj) = Some e"
    using sp by (simp add: refresh_folders_other)
  moreover have "row_matches e obj"
    using mt sp by simp
  ultimately have "refresh_file obj ?s = ?s\<lparr>seenKeys := insert (obj_key obj) (seenKeys ?s)\<rparr>"
    by (rule refresh_file_matching)
  then show "let s = ?s in refresh_file obj s = s\<lparr>seenKeys := insert k (seenKeys s)\<rparr>"
    using sp by (simp add: Let_def)
qed

lemma matching_example:
  "getObject (world0 [stored0 ''a.txt'' 3 ''2024-04-30T09:00:00.000Z'',
                      stored0 ''b.txt'' 4 ''2024-04-30T09:00:00.000Z'']) ''a.txt''
     = Some (snd (stored0 ''a.txt'' 3 ''2024-04-30T09:00:00.000Z''))"
  "listed [] [page0 [item0 ''a.txt'' 3] None] = [] @ detail_of (item0 ''a.txt'' 3) # []"
  "obj_key (detail_of (item0 ''a.txt'' 3)) = ''a.txt''"
  "folder_keys ''a.txt'' = []"
  "row_matches (snd (stored0 ''a.txt'' 3 ''2024-04-30T09:00:00.000Z''))
     (detail_of (item0 ''a.txt'' 3))"
  by code_simp+

theorem refresh_keeps_matching_row_witness:
  "getObject (snd (refreshIndex [page0 [item0 ''a.txt'' 3] None]
      (world0 [stored0 ''a.txt'' 3 ''2024-04-30T09:00:00.000Z'',
               stored0 ''b.txt'' 4 ''2024-04-30T09:00:00.000Z''])))
     ''a.txt''
     = Some (snd (stored0 ''a.txt'' 3 ''2024-04-30T09:00:00.000Z''))
   \<and> (let s = fold refresh_folder (folderPrefixesForKey ''a.txt'')
                 (fold refresh_object []
                    (new_scan (world0 [stored0 ''a.txt'' 3 ''2024-04-30T09:00:00.000Z'',
                                       stored0 ''b.txt'' 4 ''2024-04-30T09:00:00.000Z''])))
       in refresh_file (detail_of (item0 ''a.txt'' 3)) s
            = s\<lparr>seenKeys := insert ''a.txt'' (seenKeys s)\<rparr>)"
proof -
  let ?w = "world0 [stored0 ''a.txt'' 3 ''2024-04-30T09:00:00.000Z'',
                    stored0 ''b.txt'' 4 ''2024-04-30T09:00:00.000Z'']"
  have t: "getObject (snd (refreshIndex [page0 [item0 ''a.txt'' 3] None] ?w)) ''a.txt''
          = Some (snd (stored0 ''a.txt'' 3 ''2024-04-30T09:00:00.000Z''))
    \<and> (\<forall>pre obj post. listed [] [page0 [item0 ''a.txt'' 3] None] = pre @ obj # post
            \<and> obj_key obj = ''a.txt'' \<longrightarrow>
          (let s = fold refresh_folder (folderPrefixesForKey ''a.txt'')
                     (fold refresh_object pre (new_scan ?w))
           in refresh_file obj s = s\<lparr>seenKeys := insert ''a.txt'' (seenKeys s)\<rparr>))"
    by (rule refresh_keeps_matching_row [OF matching_example(1)])
      (simp_all add: matching_example(2-5))
  from t matching_example(2,3) show ?thesis
    by blast
qed

end
